theory Spec2Isabelle
  imports Main
begin

section \<open>Raw storage, injected faults and the element type\<close>

text \<open>
  The header \<^verbatim>\<open>vector.h\<close> separates acquiring memory from constructing objects in it.
  A block of raw memory for \<open>n\<close> elements is a list of \<open>n\<close> slots; a slot is \<open>None\<close> while
  it holds uninitialised storage and \<open>Some x\<close> while a constructed object of value \<open>x\<close>
  lives in it. The heap maps the address of a block to its slots. Address \<open>0\<close> is the
  null pointer: it addresses the empty range, so the heap holds the empty block there, which
  is never handed out and never released. A pointer to an element is a pair of a block
  address and an offset.

  \<open>size_t\<close> has 64 bits. The one product that a caller can drive out of its range is
  \<^verbatim>\<open>n * sizeof(T)\<close> in \<^verbatim>\<open>RawMemory::Allocate\<close>, and it is computed modulo \<open>2 ^ 64\<close>
  there (\<open>sizeof_T\<close> is the size of an element in bytes). Sizes, capacities and offsets of
  blocks that exist are natural numbers: a block is an object, no object has more than
  \<open>PTRDIFF_MAX\<close> bytes, and so neither \<^verbatim>\<open>size_ * 2\<close> nor an index into a block of a
  well-formed heap leaves the range of \<open>size_t\<close>.

  Every primitive that may throw (a non-empty allocation, a constructor, an assignment of
  the element type) draws from \<open>faults\<close>: \<open>Some k\<close> lets \<open>k\<close> such primitives
  succeed and makes the next one throw, \<open>None\<close> lets all of them succeed. Within one
  operation of the container only the first throw matters, so quantifying over \<open>faults\<close>
  covers every behaviour of the element type and of the allocator.

  \<open>leaked\<close> counts the objects whose storage was released while they were still alive
  (their destructor never ran); \<open>allocs\<close> counts the blocks handed out so far and yields
  fresh addresses.
\<close>

type_synonym 'a block = "'a option list"

type_synonym ptr = "nat \<times> nat"

record 'a world =
  heap :: "nat \<Rightarrow> 'a block option"
  allocs :: nat
  faults :: "nat option"
  leaked :: nat
  sizeof_T :: nat

text \<open>
  What the container asks of its element type \<^verbatim>\<open>T\<close>: the two type traits that
  \<^verbatim>\<open>UninitializedMoveOrCopyN\<close> tests, the value a moved-from object is left with, and the
  value of a value-initialised object.
\<close>

record 'a traits =
  nothrow_move_constructible :: bool
  copy_constructible :: bool
  moved_from :: "'a \<Rightarrow> 'a"
  value_init :: 'a

text \<open>
  An operation returns normally (\<open>Done\<close>), leaves by an exception (\<open>Thrown\<close>), or
  runs into a failed \<^verbatim>\<open>assert\<close> or an access outside the lifetime rules (\<open>Undefined\<close>).
\<close>

datatype outcome = Done | Thrown | Undefined

definition andthen ::
  "('s \<Rightarrow> outcome \<times> 's) \<Rightarrow> ('s \<Rightarrow> outcome \<times> 's) \<Rightarrow> 's \<Rightarrow> outcome \<times> 's" where
  "andthen f g s = (case f s of (Done, s') \<Rightarrow> g s' | (r, s') \<Rightarrow> (r, s'))"

text \<open>\<^verbatim>\<open>try { f } catch (...) { h; throw; }\<close>\<close>

definition on_throw ::
  "('s \<Rightarrow> outcome \<times> 's) \<Rightarrow> ('s \<Rightarrow> outcome \<times> 's) \<Rightarrow> 's \<Rightarrow> outcome \<times> 's" where
  "on_throw f h s =
     (case f s of
        (Thrown, s') \<Rightarrow> (case h s' of (Done, s'') \<Rightarrow> (Thrown, s'') | (r, s'') \<Rightarrow> (r, s''))
      | (r, s') \<Rightarrow> (r, s'))"

definition fallible :: "'a world \<Rightarrow> bool \<times> 'a world" where
  "fallible w =
     (case faults w of
        None \<Rightarrow> (False, w)
      | Some 0 \<Rightarrow> (True, w\<lparr>faults := None\<rparr>)
      | Some (Suc k) \<Rightarrow> (False, w\<lparr>faults := Some k\<rparr>))"

definition slot :: "'a world \<Rightarrow> ptr \<Rightarrow> 'a option" where
  "slot w p =
     (case heap w (fst p) of
        None \<Rightarrow> None
      | Some b \<Rightarrow> if snd p < length b then b ! snd p else None)"

definition raw :: "'a world \<Rightarrow> ptr \<Rightarrow> bool" where
  "raw w p =
     (case heap w (fst p) of
        None \<Rightarrow> False
      | Some b \<Rightarrow> snd p < length b \<and> b ! snd p = None)"

definition put :: "ptr \<Rightarrow> 'a option \<Rightarrow> 'a world \<Rightarrow> 'a world" where
  "put p x w =
     w\<lparr>heap := (heap w)(fst p := map_option (\<lambda>b. b[snd p := x]) (heap w (fst p)))\<rparr>"

subsection \<open>Lifetime primitives of the element type\<close>

text \<open>Placement of an object of value \<open>x\<close> into raw storage, once its constructor has run.\<close>

definition construct_at :: "ptr \<Rightarrow> 'a \<Rightarrow> 'a world \<Rightarrow> outcome \<times> 'a world" where
  "construct_at p x w = (if raw w p then (Done, put p (Some x) w) else (Undefined, w))"

text \<open>\<^verbatim>\<open>std::destroy_at\<close>: the destructor does not throw.\<close>

definition destroy_at :: "ptr \<Rightarrow> 'a world \<Rightarrow> outcome \<times> 'a world" where
  "destroy_at p w = (if slot w p \<noteq> None then (Done, put p None w) else (Undefined, w))"

text \<open>\<^verbatim>\<open>new (p) T(args...)\<close>, where the arguments describe the value \<open>x\<close>.\<close>

definition emplace_new :: "ptr \<Rightarrow> 'a \<Rightarrow> 'a world \<Rightarrow> outcome \<times> 'a world" where
  "emplace_new p x w =
     (case fallible w of
        (True, w') \<Rightarrow> (Thrown, w')
      | (False, w') \<Rightarrow> construct_at p x w')"

text \<open>\<^verbatim>\<open>new (p) T(*src)\<close>\<close>

definition copy_new :: "ptr \<Rightarrow> ptr \<Rightarrow> 'a world \<Rightarrow> outcome \<times> 'a world" where
  "copy_new p src w =
     (case slot w src of
        None \<Rightarrow> (Undefined, w)
      | Some x \<Rightarrow> emplace_new p x w)"

text \<open>
  \<^verbatim>\<open>new (p) T(std::move(*src))\<close>: cannot throw when the trait says so; the source
  object stays alive in its moved-from state.
\<close>

definition move_new :: "'a traits \<Rightarrow> ptr \<Rightarrow> ptr \<Rightarrow> 'a world \<Rightarrow> outcome \<times> 'a world" where
  "move_new tr p src w =
     (case slot w src of
        None \<Rightarrow> (Undefined, w)
      | Some x \<Rightarrow>
          (case (if nothrow_move_constructible tr then (False, w) else fallible w) of
             (True, w') \<Rightarrow> (Thrown, w')
           | (False, w') \<Rightarrow> construct_at p x (put src (Some (moved_from tr x)) w')))"

text \<open>\<^verbatim>\<open>*p = x\<close> for a value \<open>x\<close> held outside the heap (a local or an argument).\<close>

definition assign_value :: "ptr \<Rightarrow> 'a \<Rightarrow> 'a world \<Rightarrow> outcome \<times> 'a world" where
  "assign_value p x w =
     (case slot w p of
        None \<Rightarrow> (Undefined, w)
      | Some y \<Rightarrow>
          (case fallible w of
             (True, w') \<Rightarrow> (Thrown, w')
           | (False, w') \<Rightarrow> (Done, put p (Some x) w')))"

text \<open>\<^verbatim>\<open>*p = *src\<close>\<close>

definition copy_assign_elem :: "ptr \<Rightarrow> ptr \<Rightarrow> 'a world \<Rightarrow> outcome \<times> 'a world" where
  "copy_assign_elem p src w =
     (case slot w src of
        None \<Rightarrow> (Undefined, w)
      | Some x \<Rightarrow> assign_value p x w)"

text \<open>\<^verbatim>\<open>*p = std::move(*src)\<close>\<close>

definition move_assign_elem :: "'a traits \<Rightarrow> ptr \<Rightarrow> ptr \<Rightarrow> 'a world \<Rightarrow> outcome \<times> 'a world" where
  "move_assign_elem tr p src w =
     (case slot w src of
        None \<Rightarrow> (Undefined, w)
      | Some x \<Rightarrow>
          (case assign_value p x w of
             (Done, w') \<Rightarrow> (Done, put src (Some (moved_from tr x)) w')
           | (r, w') \<Rightarrow> (r, w')))"

subsection \<open>The algorithms of \<^verbatim>\<open><memory>\<close> and \<^verbatim>\<open><algorithm>\<close> that the header calls\<close>

text \<open>
  Each \<^verbatim>\<open>uninitialized_*\<close> algorithm destroys the objects it has constructed before it
  lets an exception out; written recursively, every level undoes its own object.
\<close>

fun uninitialized_value_construct_n ::
  "'a traits \<Rightarrow> ptr \<Rightarrow> nat \<Rightarrow> 'a world \<Rightarrow> outcome \<times> 'a world" where
  "uninitialized_value_construct_n tr p 0 = (\<lambda>w. (Done, w))"
| "uninitialized_value_construct_n tr p (Suc n) =
     andthen (emplace_new p (value_init tr))
       (on_throw (uninitialized_value_construct_n tr (fst p, Suc (snd p)) n) (destroy_at p))"

fun uninitialized_copy_n :: "ptr \<Rightarrow> nat \<Rightarrow> ptr \<Rightarrow> 'a world \<Rightarrow> outcome \<times> 'a world" where
  "uninitialized_copy_n first 0 d_first = (\<lambda>w. (Done, w))"
| "uninitialized_copy_n first (Suc n) d_first =
     andthen (copy_new d_first first)
       (on_throw
          (uninitialized_copy_n (fst first, Suc (snd first)) n (fst d_first, Suc (snd d_first)))
          (destroy_at d_first))"

fun uninitialized_move_n ::
  "'a traits \<Rightarrow> ptr \<Rightarrow> nat \<Rightarrow> ptr \<Rightarrow> 'a world \<Rightarrow> outcome \<times> 'a world" where
  "uninitialized_move_n tr first 0 d_first = (\<lambda>w. (Done, w))"
| "uninitialized_move_n tr first (Suc n) d_first =
     andthen (move_new tr d_first first)
       (on_throw
          (uninitialized_move_n tr (fst first, Suc (snd first)) n (fst d_first, Suc (snd d_first)))
          (destroy_at d_first))"

text \<open>The iterator-pair forms run over \<open>last - first\<close> elements.\<close>

definition uninitialized_copy :: "ptr \<Rightarrow> ptr \<Rightarrow> ptr \<Rightarrow> 'a world \<Rightarrow> outcome \<times> 'a world" where
  "uninitialized_copy first lst d_first = uninitialized_copy_n first (snd lst - snd first) d_first"

definition uninitialized_move ::
  "'a traits \<Rightarrow> ptr \<Rightarrow> ptr \<Rightarrow> ptr \<Rightarrow> 'a world \<Rightarrow> outcome \<times> 'a world" where
  "uninitialized_move tr first lst d_first =
     uninitialized_move_n tr first (snd lst - snd first) d_first"

fun destroy_n :: "ptr \<Rightarrow> nat \<Rightarrow> 'a world \<Rightarrow> outcome \<times> 'a world" where
  "destroy_n p 0 = (\<lambda>w. (Done, w))"
| "destroy_n p (Suc n) = andthen (destroy_at p) (destroy_n (fst p, Suc (snd p)) n)"

definition destroy :: "ptr \<Rightarrow> ptr \<Rightarrow> 'a world \<Rightarrow> outcome \<times> 'a world" where
  "destroy first lst = destroy_n first (snd lst - snd first)"

text \<open>
  \<^verbatim>\<open>std::move_backward(first, last, d_last)\<close> assigns from the back:
  \<^verbatim>\<open>*(--d_last) = std::move(*(--last))\<close> while \<^verbatim>\<open>first != last\<close>. The count is
  \<open>last - first\<close>.
\<close>

fun move_backward_n :: "'a traits \<Rightarrow> ptr \<Rightarrow> nat \<Rightarrow> ptr \<Rightarrow> 'a world \<Rightarrow> outcome \<times> 'a world" where
  "move_backward_n tr first 0 d_last = (\<lambda>w. (Done, w))"
| "move_backward_n tr first (Suc n) d_last =
     andthen (move_assign_elem tr (fst d_last, snd d_last - 1) (fst first, snd first + n))
       (move_backward_n tr first n (fst d_last, snd d_last - 1))"

definition move_backward :: "'a traits \<Rightarrow> ptr \<Rightarrow> ptr \<Rightarrow> ptr \<Rightarrow> 'a world \<Rightarrow> outcome \<times> 'a world" where
  "move_backward tr first lst d_last = move_backward_n tr first (snd lst - snd first) d_last"

text \<open>\<^verbatim>\<open>std::move(first, last, d_first)\<close> assigns from the front.\<close>

fun move_n :: "'a traits \<Rightarrow> ptr \<Rightarrow> nat \<Rightarrow> ptr \<Rightarrow> 'a world \<Rightarrow> outcome \<times> 'a world" where
  "move_n tr first 0 d_first = (\<lambda>w. (Done, w))"
| "move_n tr first (Suc n) d_first =
     andthen (move_assign_elem tr d_first first)
       (move_n tr (fst first, Suc (snd first)) n (fst d_first, Suc (snd d_first)))"

definition move_range :: "'a traits \<Rightarrow> ptr \<Rightarrow> ptr \<Rightarrow> ptr \<Rightarrow> 'a world \<Rightarrow> outcome \<times> 'a world" where
  "move_range tr first lst d_first = move_n tr first (snd lst - snd first) d_first"

text \<open>
  The loop \<^verbatim>\<open>for (size_t i = 0; i < n; ++i) data_[i] = rhs.data_[i];\<close> of the copy
  assignment, started at \<open>i\<close> with \<open>n - i\<close> rounds to go.
\<close>

fun assign_loop :: "nat \<Rightarrow> nat \<Rightarrow> nat \<Rightarrow> nat \<Rightarrow> 'a world \<Rightarrow> outcome \<times> 'a world" where
  "assign_loop dst src i 0 = (\<lambda>w. (Done, w))"
| "assign_loop dst src i (Suc k) =
     andthen (copy_assign_elem (dst, i) (src, i)) (assign_loop dst src (Suc i) k)"

section \<open>RawMemory\<close>

record RawMemory =
  buffer_m :: nat
  capacity_m :: nat

text \<open>The largest values of \<^verbatim>\<open>size_t\<close> and \<^verbatim>\<open>ptrdiff_t\<close>: \<open>2 ^ 64 - 1\<close> and \<open>2 ^ 63 - 1\<close>.\<close>

definition SIZE_MAX :: nat where
  "SIZE_MAX = 18446744073709551615"

definition PTRDIFF_MAX :: nat where
  "PTRDIFF_MAX = 9223372036854775807"

text \<open>
  \<^verbatim>\<open>Allocate(n)\<close>: the null pointer for \<open>n = 0\<close>, else the block that
  \<^verbatim>\<open>operator new(n * sizeof(T))\<close> hands out, unless it throws (\<open>None\<close> is the exception).
  The product is a \<^verbatim>\<open>size_t\<close> and wraps around; the block has room for as many objects
  as the bytes requested can hold, which is \<open>n\<close> only if the product did not wrap.
  A request of 0 bytes yields a block of its own without room for any object.
\<close>

definition Allocate :: "nat \<Rightarrow> 'a world \<Rightarrow> nat option \<times> 'a world" where
  "Allocate n w =
     (if n \<noteq> 0 then
        (case fallible w of
           (True, w') \<Rightarrow> (None, w')
         | (False, w') \<Rightarrow>
             (Some (Suc (allocs w')),
              w'\<lparr>heap := (heap w')(Suc (allocs w') \<mapsto>
                          replicate (((n * sizeof_T w) mod (SIZE_MAX + 1)) div sizeof_T w) None),
                 allocs := Suc (allocs w')\<rparr>))
      else (Some 0, w))"

text \<open>
  \<^verbatim>\<open>Deallocate(buf)\<close> hands the block to \<^verbatim>\<open>operator delete\<close>, which looks at no
  element and does nothing for the null pointer. Objects still alive in the block are
  lost without their destructor having run; \<open>leaked\<close> records how many.
\<close>

definition Deallocate :: "nat \<Rightarrow> 'a world \<Rightarrow> 'a world" where
  "Deallocate buf w =
     (if buf = 0 then w
      else
        (case heap w buf of
           None \<Rightarrow> w
         | Some b \<Rightarrow>
             w\<lparr>heap := (heap w)(buf := None),
               leaked := leaked w + length (filter (\<lambda>x. x \<noteq> None) b)\<rparr>))"

definition RawMemory_default :: RawMemory where
  "RawMemory_default = \<lparr>buffer_m = 0, capacity_m = 0\<rparr>"

definition RawMemory_ctor :: "nat \<Rightarrow> 'a world \<Rightarrow> RawMemory option \<times> 'a world" where
  "RawMemory_ctor capacity w =
     (case Allocate capacity w of
        (None, w') \<Rightarrow> (None, w')
      | (Some buf, w') \<Rightarrow> (Some \<lparr>buffer_m = buf, capacity_m = capacity\<rparr>, w'))"

text \<open>The move constructor returns the new object and what is left of \<open>other\<close>.\<close>

definition RawMemory_move_ctor :: "RawMemory \<Rightarrow> RawMemory \<times> RawMemory" where
  "RawMemory_move_ctor other =
     (\<lparr>buffer_m = buffer_m other, capacity_m = capacity_m other\<rparr>,
      other\<lparr>buffer_m := 0, capacity_m := 0\<rparr>)"

text \<open>
  The move assignment, for two distinct objects (\<^verbatim>\<open>this != &rhs\<close>); it returns the
  assigned object and what is left of \<open>rhs\<close>.
\<close>

definition RawMemory_move_assign ::
  "RawMemory \<Rightarrow> RawMemory \<Rightarrow> 'a world \<Rightarrow> RawMemory \<times> RawMemory \<times> 'a world" where
  "RawMemory_move_assign this rhs w =
     (this\<lparr>buffer_m := buffer_m rhs, capacity_m := capacity_m rhs\<rparr>,
      rhs\<lparr>buffer_m := 0, capacity_m := 0\<rparr>,
      Deallocate (buffer_m this) w)"

definition RawMemory_dtor :: "RawMemory \<Rightarrow> 'a world \<Rightarrow> 'a world" where
  "RawMemory_dtor this w = Deallocate (buffer_m this) w"

definition RawMemory_Swap :: "RawMemory \<Rightarrow> RawMemory \<Rightarrow> RawMemory \<times> RawMemory" where
  "RawMemory_Swap this other =
     (this\<lparr>buffer_m := buffer_m other, capacity_m := capacity_m other\<rparr>,
      other\<lparr>buffer_m := buffer_m this, capacity_m := capacity_m this\<rparr>)"

section \<open>Vector\<close>

record Vector =
  data_m :: RawMemory
  size_m :: nat

definition Size :: "Vector \<Rightarrow> nat" where
  "Size v = size_m v"

definition Capacity :: "Vector \<Rightarrow> nat" where
  "Capacity v = capacity_m (data_m v)"

definition GetAddress :: "Vector \<Rightarrow> nat" where
  "GetAddress v = buffer_m (data_m v)"

definition begin_it :: "Vector \<Rightarrow> ptr" where
  "begin_it v = (GetAddress v, 0)"

definition end_it :: "Vector \<Rightarrow> ptr" where
  "end_it v = (GetAddress v, size_m v)"

text \<open>
  A member function that changes \<open>size_\<close> or \<open>data_\<close> only in its last statements
  commits the new fields when everything before returned normally and keeps the old ones
  otherwise.
\<close>

definition commit :: "Vector \<Rightarrow> Vector \<Rightarrow> outcome \<times> 'a world \<Rightarrow> outcome \<times> Vector \<times> 'a world" where
  "commit old new rw = (fst rw, (if fst rw = Done then new else old), snd rw)"

subsection \<open>Construction, destruction, swap\<close>

definition Vector_default :: Vector where
  "Vector_default = \<lparr>data_m = RawMemory_default, size_m = 0\<rparr>"

text \<open>
  The constructors return the new object. When the outcome is not \<open>Done\<close> no object
  has come into being (the member \<open>data_\<close> has already been destroyed again) and the
  Vector returned is only a placeholder.
\<close>

definition Vector_sized :: "'a traits \<Rightarrow> nat \<Rightarrow> 'a world \<Rightarrow> outcome \<times> Vector \<times> 'a world" where
  "Vector_sized tr sz w =
     (case RawMemory_ctor sz w of
        (None, w1) \<Rightarrow> (Thrown, Vector_default, w1)
      | (Some d, w1) \<Rightarrow>
          (case uninitialized_value_construct_n tr (buffer_m d, 0) sz w1 of
             (Done, w2) \<Rightarrow> (Done, \<lparr>data_m = d, size_m = sz\<rparr>, w2)
           | (r, w2) \<Rightarrow> (r, Vector_default, RawMemory_dtor d w2)))"

definition Vector_copy_ctor :: "Vector \<Rightarrow> 'a world \<Rightarrow> outcome \<times> Vector \<times> 'a world" where
  "Vector_copy_ctor other w =
     (case RawMemory_ctor (size_m other) w of
        (None, w1) \<Rightarrow> (Thrown, Vector_default, w1)
      | (Some d, w1) \<Rightarrow>
          (case uninitialized_copy_n (GetAddress other, 0) (size_m other) (buffer_m d, 0) w1 of
             (Done, w2) \<Rightarrow> (Done, \<lparr>data_m = d, size_m = size_m other\<rparr>, w2)
           | (r, w2) \<Rightarrow> (r, Vector_default, RawMemory_dtor d w2)))"

text \<open>The move constructor returns the new object and what is left of \<open>other\<close>.\<close>

definition Vector_move_ctor :: "Vector \<Rightarrow> Vector \<times> Vector" where
  "Vector_move_ctor other =
     (case RawMemory_move_ctor (data_m other) of
        (d, d_other) \<Rightarrow> (\<lparr>data_m = d, size_m = size_m other\<rparr>, \<lparr>data_m = d_other, size_m = 0\<rparr>))"

definition Vector_dtor :: "Vector \<Rightarrow> 'a world \<Rightarrow> outcome \<times> 'a world" where
  "Vector_dtor v w =
     (case destroy_n (GetAddress v, 0) (size_m v) w of
        (r, w1) \<Rightarrow> (r, RawMemory_dtor (data_m v) w1))"

text \<open>\<open>Swap\<close> returns the two objects after the exchange, \<open>this\<close> first.\<close>

definition Swap :: "Vector \<Rightarrow> Vector \<Rightarrow> Vector \<times> Vector" where
  "Swap this other =
     (case RawMemory_Swap (data_m this) (data_m other) of
        (d, d_other) \<Rightarrow> (\<lparr>data_m = d, size_m = size_m other\<rparr>, \<lparr>data_m = d_other, size_m = size_m this\<rparr>))"

subsection \<open>Capacity\<close>

definition UninitializedMoveOrCopyN ::
  "'a traits \<Rightarrow> ptr \<Rightarrow> nat \<Rightarrow> ptr \<Rightarrow> 'a world \<Rightarrow> outcome \<times> 'a world" where
  "UninitializedMoveOrCopyN tr first sz d_first =
     (if nothrow_move_constructible tr \<or> \<not> copy_constructible tr
      then uninitialized_move_n tr first sz d_first
      else uninitialized_copy_n first sz d_first)"

definition UninitializedMoveOrCopy ::
  "'a traits \<Rightarrow> ptr \<Rightarrow> ptr \<Rightarrow> ptr \<Rightarrow> 'a world \<Rightarrow> outcome \<times> 'a world" where
  "UninitializedMoveOrCopy tr first lst d_first =
     (if nothrow_move_constructible tr \<or> \<not> copy_constructible tr
      then uninitialized_move tr first lst d_first
      else uninitialized_copy first lst d_first)"

text \<open>
  In \<open>Reserve\<close> the local \<open>new_data\<close> is destroyed on every way out: after the swap
  it holds the old block, on an exception it still holds the new one.
\<close>

definition Reserve :: "'a traits \<Rightarrow> nat \<Rightarrow> Vector \<Rightarrow> 'a world \<Rightarrow> outcome \<times> Vector \<times> 'a world" where
  "Reserve tr new_capacity v w =
     (if new_capacity \<le> Capacity v then (Done, v, w)
      else
        (case RawMemory_ctor new_capacity w of
           (None, w1) \<Rightarrow> (Thrown, v, w1)
         | (Some new_data, w1) \<Rightarrow>
             (case andthen
                     (UninitializedMoveOrCopyN tr (GetAddress v, 0) (size_m v) (buffer_m new_data, 0))
                     (destroy_n (GetAddress v, 0) (size_m v)) w1 of
                (Done, w2) \<Rightarrow>
                  (case RawMemory_Swap (data_m v) new_data of
                     (d, d_new) \<Rightarrow> (Done, v\<lparr>data_m := d\<rparr>, RawMemory_dtor d_new w2))
              | (r, w2) \<Rightarrow> (r, v, RawMemory_dtor new_data w2))))"

definition Resize :: "'a traits \<Rightarrow> nat \<Rightarrow> Vector \<Rightarrow> 'a world \<Rightarrow> outcome \<times> Vector \<times> 'a world" where
  "Resize tr new_size v w =
     (if new_size < size_m v then
        commit v (v\<lparr>size_m := new_size\<rparr>)
          (destroy_n (GetAddress v, new_size) (size_m v - new_size) w)
      else
        (case Reserve tr new_size v w of
           (Done, v1, w1) \<Rightarrow>
             commit v1 (v1\<lparr>size_m := new_size\<rparr>)
               (uninitialized_value_construct_n tr (GetAddress v1, size_m v1)
                  (new_size - size_m v1) w1)
         | (r, v1, w1) \<Rightarrow> (r, v1, w1)))"

subsection \<open>Appending and removing at the end\<close>

text \<open>
  \<open>EmplaceBackImpl\<close> with arguments that describe the value \<open>x\<close>. The reference it
  returns is to the slot \<open>size_ - 1\<close> of the resulting Vector.
\<close>

definition EmplaceBackImpl :: "'a traits \<Rightarrow> 'a \<Rightarrow> Vector \<Rightarrow> 'a world \<Rightarrow> outcome \<times> Vector \<times> 'a world" where
  "EmplaceBackImpl tr x v w =
     (if size_m v < Capacity v then
        commit v (v\<lparr>size_m := Suc (size_m v)\<rparr>) (emplace_new (GetAddress v, size_m v) x w)
      else
        (case RawMemory_ctor (if size_m v = 0 then 1 else size_m v * 2) w of
           (None, w1) \<Rightarrow> (Thrown, v, w1)
         | (Some new_data, w1) \<Rightarrow>
             (case andthen (emplace_new (buffer_m new_data, size_m v) x)
                    (andthen
                       (on_throw
                          (UninitializedMoveOrCopyN tr (GetAddress v, 0) (size_m v)
                             (buffer_m new_data, 0))
                          (destroy_at (buffer_m new_data, size_m v)))
                       (destroy_n (GetAddress v, 0) (size_m v))) w1 of
                (Done, w2) \<Rightarrow>
                  (case RawMemory_Swap (data_m v) new_data of
                     (d, d_new) \<Rightarrow>
                       (Done, v\<lparr>data_m := d, size_m := Suc (size_m v)\<rparr>, RawMemory_dtor d_new w2))
              | (r, w2) \<Rightarrow> (r, v, RawMemory_dtor new_data w2))))"

definition PushBack :: "'a traits \<Rightarrow> 'a \<Rightarrow> Vector \<Rightarrow> 'a world \<Rightarrow> outcome \<times> Vector \<times> 'a world" where
  "PushBack tr val v w = EmplaceBackImpl tr val v w"

definition EmplaceBack :: "'a traits \<Rightarrow> 'a \<Rightarrow> Vector \<Rightarrow> 'a world \<Rightarrow> outcome \<times> Vector \<times> 'a world" where
  "EmplaceBack tr x v w = EmplaceBackImpl tr x v w"

definition PopBack :: "Vector \<Rightarrow> 'a world \<Rightarrow> outcome \<times> Vector \<times> 'a world" where
  "PopBack v w =
     (if size_m v \<noteq> 0 then
        commit v (v\<lparr>size_m := size_m v - 1\<rparr>) (destroy_at (GetAddress v, snd (end_it v) - 1) w)
      else (Undefined, v, w))"

subsection \<open>Inserting and erasing anywhere\<close>

text \<open>
  \<open>Emplace\<close> returns the iterator as well; it means something only when the outcome is
  \<open>Done\<close>. The local \<^verbatim>\<open>T copy{args...}\<close> of the branch without growth is a value outside
  the heap: its constructor may throw, its destructor changes nothing.
\<close>

definition Emplace ::
  "'a traits \<Rightarrow> ptr \<Rightarrow> 'a \<Rightarrow> Vector \<Rightarrow> 'a world \<Rightarrow> outcome \<times> ptr \<times> Vector \<times> 'a world" where
  "Emplace tr pos x v w =
     (if fst pos = GetAddress v \<and> snd pos \<le> size_m v then
        (let off = snd pos - snd (begin_it v); pos_it = (GetAddress v, off) in
         if size_m v < Capacity v then
           (if pos = end_it v then
              (case emplace_new (GetAddress v, size_m v) x w of
                 (Done, w1) \<Rightarrow> (Done, pos_it, v\<lparr>size_m := Suc (size_m v)\<rparr>, w1)
               | (r, w1) \<Rightarrow> (r, pos, v, w1))
            else
              (case fallible w of
                 (True, w1) \<Rightarrow> (Thrown, pos, v, w1)
               | (False, w1) \<Rightarrow>
                   (case andthen
                           (move_new tr (GetAddress v, size_m v) (GetAddress v, size_m v - 1))
                           (andthen
                              (on_throw
                                 (move_backward tr pos_it (GetAddress v, size_m v - 1) (end_it v))
                                 (destroy_at (GetAddress v, size_m v)))
                              (assign_value pos_it x)) w1 of
                      (Done, w2) \<Rightarrow> (Done, pos_it, v\<lparr>size_m := Suc (size_m v)\<rparr>, w2)
                    | (r, w2) \<Rightarrow> (r, pos, v, w2))))
         else
           (case RawMemory_ctor (if size_m v = 0 then 1 else size_m v * 2) w of
              (None, w1) \<Rightarrow> (Thrown, pos, v, w1)
            | (Some new_data, w1) \<Rightarrow>
                (let new_pos_it = (buffer_m new_data, off) in
                 case andthen (emplace_new new_pos_it x)
                        (andthen
                           (on_throw
                              (UninitializedMoveOrCopy tr (begin_it v) pos_it (buffer_m new_data, 0))
                              (destroy_at new_pos_it))
                           (andthen
                              (on_throw
                                 (UninitializedMoveOrCopy tr pos_it (end_it v)
                                    (buffer_m new_data, off + 1))
                                 (destroy (buffer_m new_data, 0) (buffer_m new_data, off + 1)))
                              (destroy_n (begin_it v) (size_m v)))) w1 of
                   (Done, w2) \<Rightarrow>
                     (case RawMemory_Swap (data_m v) new_data of
                        (d, d_new) \<Rightarrow>
                          (Done, new_pos_it, v\<lparr>data_m := d, size_m := Suc (size_m v)\<rparr>,
                           RawMemory_dtor d_new w2))
                 | (r, w2) \<Rightarrow> (r, pos, v, RawMemory_dtor new_data w2))))
      else (Undefined, pos, v, w))"

definition Insert ::
  "'a traits \<Rightarrow> ptr \<Rightarrow> 'a \<Rightarrow> Vector \<Rightarrow> 'a world \<Rightarrow> outcome \<times> ptr \<times> Vector \<times> 'a world" where
  "Insert tr pos val v w = Emplace tr pos val v w"

definition Erase ::
  "'a traits \<Rightarrow> ptr \<Rightarrow> Vector \<Rightarrow> 'a world \<Rightarrow> outcome \<times> ptr \<times> Vector \<times> 'a world" where
  "Erase tr pos v w =
     (if fst pos = GetAddress v \<and> snd pos < size_m v then
        (let diff = snd pos - snd (begin_it v); pos_it = (GetAddress v, diff) in
         case (if pos \<noteq> (GetAddress v, size_m v - 1)
               then move_range tr (GetAddress v, diff + 1) (end_it v) pos_it w
               else (Done, w)) of
           (Done, w1) \<Rightarrow>
             (case PopBack v w1 of (r, v1, w2) \<Rightarrow> (r, (GetAddress v1, diff), v1, w2))
         | (r, w1) \<Rightarrow> (r, pos, v, w1))
      else (Undefined, pos, v, w))"

subsection \<open>Assignment\<close>

text \<open>
  The body of the copy assignment under \<^verbatim>\<open>this != &rhs\<close>. \<open>rhs\<close> is \<^verbatim>\<open>const\<close>, so only
  \<open>this\<close> is returned. On the reallocating path the local \<open>rhs_copy\<close> is swapped in and
  then destroyed, holding the former contents of \<open>this\<close>.
\<close>

definition copy_assign_body :: "Vector \<Rightarrow> Vector \<Rightarrow> 'a world \<Rightarrow> outcome \<times> Vector \<times> 'a world" where
  "copy_assign_body this rhs w =
     (if size_m rhs > Capacity this then
        (case Vector_copy_ctor rhs w of
           (Done, rhs_copy, w1) \<Rightarrow>
             (case Swap this rhs_copy of
                (this1, rhs_copy1) \<Rightarrow>
                  (case Vector_dtor rhs_copy1 w1 of (r, w2) \<Rightarrow> (r, this1, w2)))
         | (r, rhs_copy, w1) \<Rightarrow> (r, this, w1))
      else if size_m rhs < size_m this then
        commit this (this\<lparr>size_m := size_m rhs\<rparr>)
          (andthen (assign_loop (GetAddress this) (GetAddress rhs) 0 (size_m rhs))
             (destroy_n (GetAddress this, size_m rhs) (size_m this - size_m rhs)) w)
      else
        commit this (this\<lparr>size_m := size_m rhs\<rparr>)
          (andthen (assign_loop (GetAddress this) (GetAddress rhs) 0 (size_m this))
             (uninitialized_copy_n (GetAddress rhs, size_m this) (size_m rhs - size_m this)
                (GetAddress this, size_m this)) w))"

text \<open>
  The body of the move assignment under \<^verbatim>\<open>this != &rhs\<close>; it returns \<open>this\<close> and what
  is left of \<open>rhs\<close>. It is \<^verbatim>\<open>noexcept\<close> and has no outcome other than returning.
\<close>

definition move_assign_body :: "Vector \<Rightarrow> Vector \<Rightarrow> 'a world \<Rightarrow> Vector \<times> Vector \<times> 'a world" where
  "move_assign_body this rhs w =
     (case RawMemory_move_assign (data_m this) (data_m rhs) w of
        (d, d_rhs, w1) \<Rightarrow> (\<lparr>data_m = d, size_m = size_m rhs\<rparr>, \<lparr>data_m = d_rhs, size_m = 0\<rparr>, w1))"

text \<open>
  Both assignment operators compare the addresses of the two objects first. Vector objects
  live in a store that maps the address of an object to its fields, so that \<open>v = v\<close> is a
  call with the same address twice.
\<close>

type_synonym 'a machine = "(nat \<Rightarrow> Vector) \<times> 'a world"

definition copy_assign :: "nat \<Rightarrow> nat \<Rightarrow> 'a machine \<Rightarrow> outcome \<times> 'a machine" where
  "copy_assign this rhs m =
     (if this \<noteq> rhs then
        (case copy_assign_body (fst m this) (fst m rhs) (snd m) of
           (r, v, w) \<Rightarrow> (r, ((fst m)(this := v), w)))
      else (Done, m))"

definition move_assign :: "nat \<Rightarrow> nat \<Rightarrow> 'a machine \<Rightarrow> 'a machine" where
  "move_assign this rhs m =
     (if this \<noteq> rhs then
        (case move_assign_body (fst m this) (fst m rhs) (snd m) of
           (v, v_rhs, w) \<Rightarrow> ((fst m)(this := v, rhs := v_rhs), w))
      else m)"

section \<open>The class invariant and the abstract contents\<close>

definition live_prefix :: "nat \<Rightarrow> 'a block \<Rightarrow> bool" where
  "live_prefix n b \<longleftrightarrow>
     n \<le> length b \<and> list_all (\<lambda>x. x \<noteq> None) (take n b) \<and> list_all (\<lambda>x. x = None) (drop n b)"

text \<open>
  \<open>valid\<close>: \<open>size \<le> capacity\<close>, the block has \<open>capacity\<close> slots, the slots below \<open>size\<close>
  hold live objects and the others are raw; the buffer is null exactly when the capacity
  is \<open>0\<close>.
\<close>

definition valid :: "'a world \<Rightarrow> Vector \<Rightarrow> bool" where
  "valid w v \<longleftrightarrow>
     (GetAddress v = 0) = (Capacity v = 0) \<and>
     (case heap w (GetAddress v) of
        None \<Rightarrow> False
      | Some b \<Rightarrow> length b = Capacity v \<and> live_prefix (size_m v) b)"

definition contents :: "'a world \<Rightarrow> Vector \<Rightarrow> 'a list" where
  "contents w v =
     (case heap w (GetAddress v) of
        None \<Rightarrow> []
      | Some b \<Rightarrow> map the (take (size_m v) b))"

text \<open>
  Blocks live at the addresses handed out so far; the null pointer addresses the empty
  block; an element has at least one byte, and neither an element nor a block has more
  than \<open>PTRDIFF_MAX\<close> bytes.
\<close>

definition wf_world :: "'a world \<Rightarrow> bool" where
  "wf_world w \<longleftrightarrow>
     heap w 0 = Some [] \<and> (\<forall>a. heap w a \<noteq> None \<longrightarrow> a \<le> allocs w) \<and>
     0 < sizeof_T w \<and> sizeof_T w \<le> PTRDIFF_MAX \<and>
     (\<forall>a b. heap w a = Some b \<longrightarrow> length b * sizeof_T w \<le> PTRDIFF_MAX)"

section \<open>Notions used in the statements\<close>

text \<open>
  \<open>enough n f\<close>: the pending faults \<open>f\<close> let the next \<open>n\<close> fallible primitives succeed.
  \<open>cost tr n\<close> is the number of fallible primitives in \<open>n\<close> move constructions: none when
  the move constructor cannot throw.
\<close>

definition enough :: "nat \<Rightarrow> nat option \<Rightarrow> bool" where
  "enough n f = (case f of None \<Rightarrow> True | Some k \<Rightarrow> n \<le> k)"

definition cost :: "'a traits \<Rightarrow> nat \<Rightarrow> nat" where
  "cost tr n = (if nothrow_move_constructible tr then 0 else n)"

text \<open>
  \<open>moved_out tr j c\<close>: the elements \<open>c\<close> after the first \<open>j\<close> of them have been moved from.
  \<open>moves_before_throw i f\<close>: with the pending faults \<open>f\<close> and \<open>i\<close> fallible primitives
  ahead of the first move, the number of throwing moves that succeed before the throw.
\<close>

definition moved_out :: "'a traits \<Rightarrow> nat \<Rightarrow> 'a list \<Rightarrow> 'a list" where
  "moved_out tr j c = map (moved_from tr) (take j c) @ drop j c"

definition moves_before_throw :: "nat \<Rightarrow> nat option \<Rightarrow> nat" where
  "moves_before_throw i f = (case f of None \<Rightarrow> 0 | Some k \<Rightarrow> k - i)"

text \<open>
  \<open>doubled v w' v'\<close>: the Vector \<open>v'\<close> has capacity \<open>max 1 (2 * capacity of v)\<close> and its
  block in \<open>w'\<close> has that many slots.
\<close>

definition doubled :: "Vector \<Rightarrow> 'a world \<Rightarrow> Vector \<Rightarrow> bool" where
  "doubled v w' v' \<longleftrightarrow>
     Capacity v' = max 1 (2 * Capacity v) \<and>
     map_option length (heap w' (GetAddress v')) = Some (max 1 (2 * Capacity v))"

text \<open>
  \<open>rolled_back tr v w v' w'\<close> describes the state \<open>(v', w')\<close> in which a growing append or
  insert on \<open>(v, w)\<close> leaves by an exception: the Vector has its old block, capacity and size
  and is valid; nothing was leaked, so the new element, if it had been constructed, was
  destroyed; the new block is gone; no block other than the Vector's own differs. The
  whole heap is as before the call when the migration copies or cannot throw, or when the
  exception came from the allocation or from the constructor of the new element (the first
  and the second fallible primitive of the call). Otherwise the migration was by a move
  constructor that threw, and the elements are those before the call with the ones whose
  move had succeeded left in their moved-from state.
\<close>

definition rolled_back :: "'a traits \<Rightarrow> Vector \<Rightarrow> 'a world \<Rightarrow> Vector \<Rightarrow> 'a world \<Rightarrow> bool" where
  "rolled_back tr v w v' w' \<longleftrightarrow>
     v' = v \<and> valid w' v' \<and> leaked w' = leaked w \<and> heap w' (Suc (allocs w)) = None \<and>
     (\<forall>a. a \<noteq> GetAddress v \<longrightarrow> heap w' a = heap w a) \<and>
     (if nothrow_move_constructible tr \<or> copy_constructible tr \<or> \<not> enough 2 (faults w)
      then heap w' = heap w
      else contents w' v' = moved_out tr (moves_before_throw 2 (faults w)) (contents w v))"

section \<open>Worlds and element types used as concrete inputs\<close>

definition empty_world :: "nat world" where
  "empty_world =
     \<lparr>heap = (\<lambda>_. None)(0 \<mapsto> []), allocs = 0, faults = None, leaked = 0, sizeof_T = 4\<rparr>"

text \<open>An element type like \<^verbatim>\<open>int\<close>: moving copies and cannot throw.\<close>

definition int_traits :: "nat traits" where
  "int_traits = \<lparr>nothrow_move_constructible = True, copy_constructible = True,
     moved_from = (\<lambda>x. x), value_init = 0\<rparr>"

text \<open>
  A move-only element type whose move constructor may throw and leaves the value \<open>0\<close>
  behind.
\<close>

definition move_only_traits :: "nat traits" where
  "move_only_traits = \<lparr>nothrow_move_constructible = False, copy_constructible = False,
     moved_from = (\<lambda>x. 0), value_init = 0\<rparr>"

text \<open>
  A copyable element type whose move constructor may throw, so that migration copies.
\<close>

definition copying_traits :: "nat traits" where
  "copying_traits = \<lparr>nothrow_move_constructible = False, copy_constructible = True,
     moved_from = (\<lambda>x. 0), value_init = 0\<rparr>"

text \<open>A world with one block at address \<open>1\<close> holding the given slots.\<close>

definition one_block :: "nat block \<Rightarrow> nat world" where
  "one_block b =
     \<lparr>heap = (\<lambda>_. None)(0 \<mapsto> [], 1 \<mapsto> b), allocs = 1, faults = None, leaked = 0, sizeof_T = 4\<rparr>"

definition vec :: "nat \<Rightarrow> nat \<Rightarrow> nat \<Rightarrow> Vector" where
  "vec buf cap sz = \<lparr>data_m = \<lparr>buffer_m = buf, capacity_m = cap\<rparr>, size_m = sz\<rparr>"

text \<open>A world with two blocks, and a store with two Vector objects at the addresses 1 and 2.\<close>

definition two_blocks :: "nat block \<Rightarrow> nat block \<Rightarrow> nat world" where
  "two_blocks b1 b2 =
     \<lparr>heap = (\<lambda>_. None)(0 \<mapsto> [], 1 \<mapsto> b1, 2 \<mapsto> b2), allocs = 2, faults = None, leaked = 0,
        sizeof_T = 4\<rparr>"

definition two_objects :: "Vector \<Rightarrow> Vector \<Rightarrow> nat \<Rightarrow> Vector" where
  "two_objects v1 v2 = (\<lambda>_. Vector_default)(1 := v1, 2 := v2)"

section \<open>Auxiliary notions for the proofs\<close>

text \<open>
  \<open>spend n f\<close>: the faults pending after \<open>n\<close> fallible primitives have succeeded;
  \<open>left f\<close>: how many succeed before the throw.
  \<open>st w H F\<close> is the world \<open>w\<close> with heap \<open>H\<close> and pending faults \<open>F\<close>.
  \<open>overlay ys i zs\<close> writes the slots \<open>zs\<close> over \<open>ys\<close> from offset \<open>i\<close>;
  \<open>packed c cap\<close> is the block of a valid Vector with contents \<open>c\<close> and capacity \<open>cap\<close>;
  \<open>migrated tr m xs si\<close> is the source block after \<open>m\<close> elements from offset \<open>si\<close> have been
  migrated out of it; \<open>shift_right\<close> and \<open>shift_left\<close> are the blocks that
  \<^verbatim>\<open>std::move_backward\<close> and \<^verbatim>\<open>std::move\<close> leave when they shift a range by one slot;
  \<open>release a H\<close> is the heap \<open>H\<close> without the block at \<open>a\<close>, unless \<open>a\<close> is null;
  \<open>shape_eq zs xs\<close>: the same slots are alive in both blocks; \<open>grow\<close> is the branch
  that \<open>EmplaceBackImpl\<close> and \<open>Emplace\<close> share when the Vector is full.
  \<open>wf_heap\<close> is the part of \<open>wf_world\<close> about addresses, and \<open>fits n w\<close> says that the
  request for \<open>n\<close> elements does not wrap around in \<open>Allocate\<close>.
\<close>


definition spend :: "nat \<Rightarrow> nat option \<Rightarrow> nat option" where
  "spend n f = (case f of None \<Rightarrow> None | Some k \<Rightarrow> Some (k - n))"

definition left :: "nat option \<Rightarrow> nat" where
  "left f = (case f of None \<Rightarrow> 0 | Some k \<Rightarrow> k)"

definition mf :: "'a traits \<Rightarrow> 'a option \<Rightarrow> 'a option" where
  "mf tr = map_option (moved_from tr)"

definition overlay :: "'b list \<Rightarrow> nat \<Rightarrow> 'b list \<Rightarrow> 'b list" where
  "overlay ys i zs = take i ys @ zs @ drop (i + length zs) ys"

definition st :: "'a world \<Rightarrow> (nat \<Rightarrow> 'a block option) \<Rightarrow> nat option \<Rightarrow> 'a world" where
  "st w H F = w\<lparr>heap := H, faults := F\<rparr>"

definition shift_right :: "'a traits \<Rightarrow> 'a block \<Rightarrow> nat \<Rightarrow> nat \<Rightarrow> 'a block" where
  "shift_right tr xs p n =
     map (\<lambda>j. if p < j \<and> j \<le> p + n then xs ! (j - 1)
              else if j = p \<and> 0 < n then mf tr (xs ! p) else xs ! j) [0..<length xs]"

definition shift_left :: "'a traits \<Rightarrow> 'a block \<Rightarrow> nat \<Rightarrow> nat \<Rightarrow> 'a block" where
  "shift_left tr xs p n =
     map (\<lambda>j. if p \<le> j \<and> j < p + n then xs ! (j + 1)
              else if j = p + n \<and> 0 < n then mf tr (xs ! j) else xs ! j) [0..<length xs]"

definition packed :: "'a list \<Rightarrow> nat \<Rightarrow> 'a block" where
  "packed c cap = map Some c @ replicate (cap - length c) None"

definition migrated :: "'a traits \<Rightarrow> nat \<Rightarrow> 'a block \<Rightarrow> nat \<Rightarrow> 'a block" where
  "migrated tr m xs si =
     (if nothrow_move_constructible tr \<or> \<not> copy_constructible tr
      then overlay xs si (map (mf tr) (take m (drop si xs))) else xs)"

definition release :: "nat \<Rightarrow> (nat \<Rightarrow> 'a block option) \<Rightarrow> nat \<Rightarrow> 'a block option" where
  "release a H = (if a = 0 then H else H(a := None))"

definition wf_heap :: "'a world \<Rightarrow> bool" where
  "wf_heap w \<longleftrightarrow> heap w 0 = Some [] \<and> (\<forall>a. heap w a \<noteq> None \<longrightarrow> a \<le> allocs w)"

definition fits :: "nat \<Rightarrow> 'a world \<Rightarrow> bool" where
  "fits n w \<longleftrightarrow> 0 < sizeof_T w \<and> n * sizeof_T w \<le> SIZE_MAX"

definition shape_eq :: "'a block \<Rightarrow> 'a block \<Rightarrow> bool" where
  "shape_eq zs xs \<longleftrightarrow> length zs = length xs \<and> (\<forall>k<length xs. (zs ! k = None) = (xs ! k = None))"

definition grow :: "'a traits \<Rightarrow> nat \<Rightarrow> 'a \<Rightarrow> Vector \<Rightarrow> 'a world \<Rightarrow> outcome \<times> Vector \<times> 'a world" where
  "grow tr p x v w =
     (case RawMemory_ctor (if size_m v = 0 then 1 else size_m v * 2) w of
         (None, w1) \<Rightarrow> (Thrown, v, w1)
       | (Some new_data, w1) \<Rightarrow>
           (case andthen (emplace_new (buffer_m new_data, p) x)
                 (andthen
                    (on_throw (UninitializedMoveOrCopyN tr (GetAddress v, 0) p (buffer_m new_data, 0))
                       (destroy_at (buffer_m new_data, p)))
                    (andthen
                       (on_throw (UninitializedMoveOrCopyN tr (GetAddress v, p) (size_m v - p)
                                    (buffer_m new_data, Suc p))
                          (destroy_n (buffer_m new_data, 0) (Suc p)))
                       (destroy_n (GetAddress v, 0) (size_m v)))) w1 of
              (Done, w2) \<Rightarrow> (Done, \<lparr>data_m = new_data, size_m = Suc (size_m v)\<rparr>,
                              RawMemory_dtor (data_m v) w2)
            | (r, w2) \<Rightarrow> (r, v, RawMemory_dtor new_data w2)))"

section \<open>Lemmas about the primitives and the algorithms\<close>

lemma enough_0 [simp]: "enough 0 f" by (simp add: enough_def split: option.splits)

lemma spend_0 [simp]: "spend 0 f = f" by (simp add: spend_def split: option.splits)

lemma enough_None [simp]: "enough n None" by (simp add: enough_def)

lemma spend_None [simp]: "spend n None = None" by (simp add: spend_def)

lemma enough_Suc: "enough (Suc n) f \<longleftrightarrow> enough 1 f \<and> enough n (spend 1 f)"
  by (auto simp: enough_def spend_def split: option.splits)

lemma spend_Suc: "spend (Suc n) f = spend n (spend 1 f)"
  by (auto simp: enough_def spend_def split: option.splits)

lemma enough_add: "enough (m + n) f \<longleftrightarrow> enough m f \<and> enough n (spend m f)"
  by (auto simp: enough_def spend_def split: option.splits)

lemma spend_add: "spend (m + n) f = spend n (spend m f)"
  by (auto simp: enough_def spend_def split: option.splits)

lemma cost_0 [simp]: "cost tr 0 = 0" by (simp add: cost_def)

lemma enough_cost_Suc: "enough (cost tr (Suc n)) f \<longleftrightarrow> enough (cost tr 1) f \<and> enough (cost tr n) (spend (cost tr 1) f)"
  by (simp add: cost_def enough_Suc[of n])

lemma spend_cost_Suc: "spend (cost tr (Suc n)) f = spend (cost tr n) (spend (cost tr 1) f)"
  by (simp add: cost_def spend_Suc[of n])

lemma left_spend: "enough 1 f \<Longrightarrow> \<not> enough n (spend 1 f) \<Longrightarrow> left f = Suc (left (spend 1 f))"
  by (auto simp: enough_def spend_def left_def split: option.splits)

lemma left_0: "\<not> enough 1 f \<Longrightarrow> left f = 0"
  by (auto simp: enough_def left_def split: option.splits)

lemma st_sel [simp]:
  "heap (st w H F) = H" "faults (st w H F) = F" "allocs (st w H F) = allocs w" "leaked (st w H F) = leaked w"
  "sizeof_T (st w H F) = sizeof_T w"
  by (simp_all add: st_def)

lemma st_st [simp]: "st (st w H F) H' F' = st w H' F'"
  by (simp add: st_def)

lemma st_eq_iff [simp]: "st w H F = st w H' F' \<longleftrightarrow> H = H' \<and> F = F'"
  by (metis st_sel(1,2))

lemma st_id: "H = heap w \<Longrightarrow> F = faults w \<Longrightarrow> st w H F = w"
  by (simp add: st_def)

lemma fallible_eq:
  "fallible w = (if enough 1 (faults w) then (False, st w (heap w) (spend 1 (faults w))) else (True, st w (heap w) None))"
  by (auto simp: fallible_def enough_def spend_def st_def split: option.splits nat.splits)

lemma length_overlay [simp]: "i + length zs \<le> length ys \<Longrightarrow> length (overlay ys i zs) = length ys"
  by (simp add: overlay_def)

lemma overlay_Nil [simp]: "overlay ys i [] = ys"
  by (simp add: overlay_def)

lemma overlay_Cons: "i < length ys \<Longrightarrow> overlay (ys[i := z]) (Suc i) zs = overlay ys i (z # zs)"
  by (simp add: overlay_def take_Suc_conv_app_nth)

lemma overlay_same: "i + n \<le> length ys \<Longrightarrow> overlay ys i (take n (drop i ys)) = ys"
  by (simp add: overlay_def) (metis add.commute append_take_drop_id drop_drop)

lemma take_Suc_drop: "i < length xs \<Longrightarrow> take (Suc n) (drop i xs) = xs ! i # take n (drop (Suc i) xs)"
  by (metis Cons_nth_drop_Suc take_Suc_Cons)

lemma shift_pre: "\<forall>k<Suc n. P (i + k) \<Longrightarrow> \<forall>k<n. P (Suc i + k)"
  by (metis Suc_less_eq add_Suc_shift)

lemma shift_pre_upd: "\<forall>k<Suc n. P (ys ! (i + k)) \<Longrightarrow> \<forall>k<n. P (ys[i := z] ! (Suc i + k))"
  by (metis Suc_less_eq add_Suc_shift lessI less_add_Suc1 nat_neq_iff nth_list_update_neq not_less_eq)

lemma emplace_new_eq:
  "heap w a = Some ys \<Longrightarrow> i < length ys \<Longrightarrow> ys ! i = None \<Longrightarrow>
   emplace_new (a, i) x w =
     (if enough 1 (faults w)
      then (Done, st w ((heap w)(a \<mapsto> ys[i := Some x])) (spend 1 (faults w)))
      else (Thrown, st w (heap w) None))"
  by (simp add: emplace_new_def fallible_eq construct_at_def raw_def put_def st_def)

lemma destroy_at_eq:
  "heap w a = Some ys \<Longrightarrow> i < length ys \<Longrightarrow> ys ! i \<noteq> None \<Longrightarrow>
   destroy_at (a, i) w = (Done, st w ((heap w)(a \<mapsto> ys[i := None])) (faults w))"
  by (simp add: destroy_at_def slot_def put_def st_def)

lemma copy_new_eq:
  "heap w sa = Some xs \<Longrightarrow> si < length xs \<Longrightarrow> xs ! si \<noteq> None \<Longrightarrow>
   heap w a = Some ys \<Longrightarrow> i < length ys \<Longrightarrow> ys ! i = None \<Longrightarrow>
   copy_new (a, i) (sa, si) w =
     (if enough 1 (faults w)
      then (Done, st w ((heap w)(a \<mapsto> ys[i := xs ! si])) (spend 1 (faults w)))
      else (Thrown, st w (heap w) None))"
  by (auto simp: copy_new_def slot_def emplace_new_eq)

lemma move_new_eq:
  "heap w sa = Some xs \<Longrightarrow> si < length xs \<Longrightarrow> xs ! si \<noteq> None \<Longrightarrow> sa \<noteq> a \<Longrightarrow>
   heap w a = Some ys \<Longrightarrow> i < length ys \<Longrightarrow> ys ! i = None \<Longrightarrow>
   move_new tr (a, i) (sa, si) w =
     (if enough (cost tr 1) (faults w)
      then (Done, st w ((heap w)(sa \<mapsto> xs[si := mf tr (xs ! si)], a \<mapsto> ys[i := xs ! si]))
                     (spend (cost tr 1) (faults w)))
      else (Thrown, st w (heap w) None))"
  by (auto simp: move_new_def slot_def fallible_eq construct_at_def raw_def put_def cost_def mf_def fun_upd_twist st_def)

lemma destroy_n_eq:
  "heap w a = Some ys \<Longrightarrow> i + n \<le> length ys \<Longrightarrow> \<forall>k<n. ys ! (i + k) \<noteq> None \<Longrightarrow>
   destroy_n (a, i) n w = (Done, st w ((heap w)(a \<mapsto> overlay ys i (replicate n None))) (faults w))"
proof (induction n arbitrary: i ys w)
  case 0
  then show ?case by (simp add: map_upd_triv st_id)
next
  case (Suc n)
  from Suc.prems have i: "i < length ys" and l: "ys ! i \<noteq> None"
    by force+
  let ?w = "st w ((heap w)(a \<mapsto> ys[i := None])) (faults w)"
  have 1: "destroy_at (a, i) w = (Done, ?w)"
    using Suc.prems i l by (simp add: destroy_at_eq)
  have 2: "destroy_n (a, Suc i) n ?w = (Done, st ?w ((heap ?w)(a \<mapsto> overlay (ys[i := None]) (Suc i) (replicate n None))) (faults ?w))"
    using Suc.prems i shift_pre_upd[OF Suc.prems(3)] by (intro Suc.IH) auto
  have 3: "overlay (ys[i := None]) (Suc i) (replicate n None) = overlay ys i (replicate (Suc n) None)"
    using i by (simp add: overlay_Cons)
  have "destroy_n (a, i) (Suc n) w =
      (Done, st w ((heap w)(a \<mapsto> overlay ys i (replicate (Suc n) None))) (faults w))"
    unfolding destroy_n.simps andthen_def fst_conv snd_conv 1 by (simp add: 2 3 del: replicate_Suc)
  then show ?case .
qed

lemma uninitialized_value_construct_n_eq:
  "heap w a = Some ys \<Longrightarrow> i + n \<le> length ys \<Longrightarrow> \<forall>k<n. ys ! (i + k) = None \<Longrightarrow>
   uninitialized_value_construct_n tr (a, i) n w =
     (if enough n (faults w)
      then (Done, st w ((heap w)(a \<mapsto> overlay ys i (replicate n (Some (value_init tr)))))
                     (spend n (faults w)))
      else (Thrown, st w (heap w) None))"
proof (induction n arbitrary: i ys w)
  case 0
  then show ?case by (simp add: map_upd_triv st_id)
next
  case (Suc n)
  from Suc.prems have i: "i < length ys" and l: "ys ! i = None"
    by force+
  let ?x = "Some (value_init tr)"
  let ?w = "st w ((heap w)(a \<mapsto> ys[i := ?x])) (spend 1 (faults w))"
  have 1: "emplace_new (a, i) (value_init tr) w =
      (if enough 1 (faults w) then (Done, ?w) else (Thrown, st w (heap w) None))"
    using Suc.prems i l by (simp add: emplace_new_eq)
  have 2: "uninitialized_value_construct_n tr (a, Suc i) n ?w =
     (if enough n (faults ?w)
      then (Done, st ?w ((heap ?w)(a \<mapsto> overlay (ys[i := ?x]) (Suc i) (replicate n ?x)))
                     (spend n (faults ?w)))
      else (Thrown, st ?w (heap ?w) None))"
    using Suc.prems i shift_pre_upd[OF Suc.prems(3)] by (intro Suc.IH) auto
  have 3: "overlay (ys[i := ?x]) (Suc i) (replicate n ?x) = overlay ys i (replicate (Suc n) ?x)"
    using i by (simp add: overlay_Cons)
  have 4: "destroy_at (a, i) (st w ((heap w)(a \<mapsto> ys[i := ?x])) None) = (Done, st w (heap w) None)"
    using i l Suc.prems(1)
    by (subst destroy_at_eq[where ys = "ys[i := ?x]"]) (simp_all add: list_update_same_conv[THEN iffD2] map_upd_triv)
  have "uninitialized_value_construct_n tr (a, i) (Suc n) w =
     (if enough (Suc n) (faults w)
      then (Done, st w ((heap w)(a \<mapsto> overlay ys i (replicate (Suc n) ?x))) (spend (Suc n) (faults w)))
      else (Thrown, st w (heap w) None))"
    unfolding uninitialized_value_construct_n.simps andthen_def on_throw_def fst_conv snd_conv 1
    by (simp add: 2 3 4 enough_Suc[of n] spend_Suc[of n] del: replicate_Suc One_nat_def)
  then show ?case .
qed

lemma uninitialized_copy_n_eq:
  "heap w sa = Some xs \<Longrightarrow> si + n \<le> length xs \<Longrightarrow> \<forall>k<n. xs ! (si + k) \<noteq> None \<Longrightarrow> sa \<noteq> a \<Longrightarrow>
   heap w a = Some ys \<Longrightarrow> i + n \<le> length ys \<Longrightarrow> \<forall>k<n. ys ! (i + k) = None \<Longrightarrow>
   uninitialized_copy_n (sa, si) n (a, i) w =
     (if enough n (faults w)
      then (Done, st w ((heap w)(a \<mapsto> overlay ys i (take n (drop si xs)))) (spend n (faults w)))
      else (Thrown, st w (heap w) None))"
proof (induction n arbitrary: i si ys w)
  case 0
  then show ?case by (simp add: map_upd_triv st_id)
next
  case (Suc n)
  from Suc.prems have i: "i < length ys" and l: "ys ! i = None" and si: "si < length xs" and x: "xs ! si \<noteq> None"
    by force+
  let ?x = "xs ! si"
  let ?w = "st w ((heap w)(a \<mapsto> ys[i := ?x])) (spend 1 (faults w))"
  have 1: "copy_new (a, i) (sa, si) w =
      (if enough 1 (faults w) then (Done, ?w) else (Thrown, st w (heap w) None))"
    using Suc.prems i l si x by (simp add: copy_new_eq)
  have 2: "uninitialized_copy_n (sa, Suc si) n (a, Suc i) ?w =
     (if enough n (faults ?w)
      then (Done, st ?w ((heap ?w)(a \<mapsto> overlay (ys[i := ?x]) (Suc i) (take n (drop (Suc si) xs))))
                     (spend n (faults ?w)))
      else (Thrown, st ?w (heap ?w) None))"
    using Suc.prems i shift_pre[OF Suc.prems(3)] shift_pre_upd[OF Suc.prems(7)] by (intro Suc.IH) auto
  have 3: "overlay (ys[i := ?x]) (Suc i) (take n (drop (Suc si) xs)) = overlay ys i (take (Suc n) (drop si xs))"
    using i si by (simp add: overlay_Cons take_Suc_drop del: take_Suc)
  have 4: "destroy_at (a, i) (st w ((heap w)(a \<mapsto> ys[i := ?x])) None) = (Done, st w (heap w) None)"
    using i l x Suc.prems(5)
    by (subst destroy_at_eq[where ys = "ys[i := ?x]"]) (simp_all add: list_update_same_conv[THEN iffD2] map_upd_triv)
  have "uninitialized_copy_n (sa, si) (Suc n) (a, i) w =
     (if enough (Suc n) (faults w)
      then (Done, st w ((heap w)(a \<mapsto> overlay ys i (take (Suc n) (drop si xs)))) (spend (Suc n) (faults w)))
      else (Thrown, st w (heap w) None))"
    unfolding uninitialized_copy_n.simps andthen_def on_throw_def fst_conv snd_conv 1
    by (simp add: 2 3 4 enough_Suc[of n] spend_Suc[of n] del: take_Suc One_nat_def)
  then show ?case .
qed

lemma destroy_at_st:
  "H a = Some ys \<Longrightarrow> i < length ys \<Longrightarrow> ys ! i \<noteq> None \<Longrightarrow>
   destroy_at (a, i) (st w H F) = (Done, st w (H(a \<mapsto> ys[i := None])) F)"
  by (simp add: destroy_at_eq)

lemma map_mf_take_Suc:
  "si < length xs \<Longrightarrow> mf tr (xs ! si) # map (mf tr) (take m (drop (Suc si) xs)) = map (mf tr) (take (Suc m) (drop si xs))"
  by (simp add: take_Suc_drop del: take_Suc)

lemma uninitialized_move_n_eq:
  "heap w sa = Some xs \<Longrightarrow> si + n \<le> length xs \<Longrightarrow> \<forall>k<n. xs ! (si + k) \<noteq> None \<Longrightarrow> sa \<noteq> a \<Longrightarrow>
   heap w a = Some ys \<Longrightarrow> i + n \<le> length ys \<Longrightarrow> \<forall>k<n. ys ! (i + k) = None \<Longrightarrow>
   uninitialized_move_n tr (sa, si) n (a, i) w =
     (if enough (cost tr n) (faults w)
      then (Done, st w ((heap w)(sa \<mapsto> overlay xs si (map (mf tr) (take n (drop si xs))),
                                a \<mapsto> overlay ys i (take n (drop si xs))))
                     (spend (cost tr n) (faults w)))
      else (Thrown, st w ((heap w)(sa \<mapsto> overlay xs si (map (mf tr) (take (left (faults w)) (drop si xs)))))
                     None))"
proof (induction n arbitrary: i si xs ys w)
  case 0
  then show ?case by (simp add: map_upd_triv st_id)
next
  case (Suc n)
  from Suc.prems have i: "i < length ys" and l: "ys ! i = None" and si: "si < length xs" and x: "xs ! si \<noteq> None"
    by force+
  let ?x = "xs ! si"
  let ?xs = "xs[si := mf tr ?x]"
  let ?ys = "ys[i := ?x]"
  let ?f = "spend (cost tr 1) (faults w)"
  let ?w = "st w ((heap w)(sa \<mapsto> ?xs, a \<mapsto> ?ys)) ?f"
  have 1: "move_new tr (a, i) (sa, si) w =
      (if enough (cost tr 1) (faults w) then (Done, ?w) else (Thrown, st w (heap w) None))"
    using Suc.prems i l si x by (simp add: move_new_eq)
  have pre: "\<forall>k<n. ?xs ! (Suc si + k) \<noteq> None" "\<forall>k<n. ?ys ! (Suc i + k) = None"
    using shift_pre_upd[OF Suc.prems(3)] shift_pre_upd[OF Suc.prems(7)] by auto
  have 2: "uninitialized_move_n tr (sa, Suc si) n (a, Suc i) ?w =
     (if enough (cost tr n) ?f
      then (Done, st ?w ((heap ?w)(sa \<mapsto> overlay ?xs (Suc si) (map (mf tr) (take n (drop (Suc si) ?xs))),
                                a \<mapsto> overlay ?ys (Suc i) (take n (drop (Suc si) ?xs))))
                     (spend (cost tr n) ?f))
      else (Thrown, st ?w ((heap ?w)(sa \<mapsto> overlay ?xs (Suc si) (map (mf tr) (take (left ?f) (drop (Suc si) ?xs)))))
                     None))"
    using Suc.prems i si pre
    by (subst Suc.IH[where xs = ?xs and ys = ?ys]) auto
  have 3: "drop (Suc si) ?xs = drop (Suc si) xs"
    by simp
  have 4: "overlay ?xs (Suc si) (map (mf tr) (take m (drop (Suc si) xs))) =
      overlay xs si (map (mf tr) (take (Suc m) (drop si xs)))" for m
    using si by (simp add: overlay_Cons map_mf_take_Suc del: take_Suc)
  have 5: "overlay ?ys (Suc i) (take n (drop (Suc si) xs)) = overlay ys i (take (Suc n) (drop si xs))"
    using i si by (simp add: overlay_Cons take_Suc_drop del: take_Suc)
  have 6: "ys[i := None] = ys"
    using l by (metis list_update_id)
  have 7: "(heap w)(sa \<mapsto> xs) = heap w" "(heap w)(sa \<mapsto> S, a \<mapsto> ys) = (heap w)(sa \<mapsto> S)" for S
    using Suc.prems(1,4,5) by (auto simp: fun_eq_iff)
  have 8: "\<not> nothrow_move_constructible tr \<Longrightarrow> enough 1 (faults w) \<Longrightarrow> \<not> enough n (spend 1 (faults w)) \<Longrightarrow>
      Suc (left (spend 1 (faults w))) = left (faults w)"
    by (simp add: left_spend)
  have "uninitialized_move_n tr (sa, si) (Suc n) (a, i) w =
     (if enough (cost tr (Suc n)) (faults w)
      then (Done, st w ((heap w)(sa \<mapsto> overlay xs si (map (mf tr) (take (Suc n) (drop si xs))),
                                a \<mapsto> overlay ys i (take (Suc n) (drop si xs))))
                     (spend (cost tr (Suc n)) (faults w)))
      else (Thrown, st w ((heap w)(sa \<mapsto> overlay xs si (map (mf tr) (take (left (faults w)) (drop si xs)))))
                     None))"
  proof (cases "nothrow_move_constructible tr")
    case True
    then show ?thesis
      unfolding uninitialized_move_n.simps andthen_def on_throw_def fst_conv snd_conv 1
      using Suc.prems(4) 2
      by (simp add: 3 4 5 cost_def del: take_Suc One_nat_def)
  next
    case False
    then show ?thesis
      unfolding uninitialized_move_n.simps andthen_def on_throw_def fst_conv snd_conv 1
      using Suc.prems(4) i x 2
      by (simp add: 3 4 5 6 7 8 cost_def enough_Suc[of n] spend_Suc[of n] left_0 destroy_at_st
          del: take_Suc One_nat_def)
  qed
  then show ?case .
qed

lemma mf_None [simp]: "mf tr x = None \<longleftrightarrow> x = None"
  by (simp add: mf_def)

lemma mf_Some [simp]: "mf tr (Some v) = Some (moved_from tr v)"
  by (simp add: mf_def)

lemma mf_Some_ex [simp]: "(\<exists>y. mf tr x = Some y) \<longleftrightarrow> (\<exists>y. x = Some y)"
  by (cases x) simp_all

lemma assign_value_eq:
  "heap w a = Some ys \<Longrightarrow> i < length ys \<Longrightarrow> ys ! i \<noteq> None \<Longrightarrow>
   assign_value (a, i) x w =
     (if enough 1 (faults w)
      then (Done, st w ((heap w)(a \<mapsto> ys[i := Some x])) (spend 1 (faults w)))
      else (Thrown, st w (heap w) None))"
  by (auto simp: assign_value_def slot_def fallible_eq put_def st_def)

lemma copy_assign_elem_eq:
  "heap w sa = Some xs \<Longrightarrow> si < length xs \<Longrightarrow> xs ! si \<noteq> None \<Longrightarrow>
   heap w a = Some ys \<Longrightarrow> i < length ys \<Longrightarrow> ys ! i \<noteq> None \<Longrightarrow>
   copy_assign_elem (a, i) (sa, si) w =
     (if enough 1 (faults w)
      then (Done, st w ((heap w)(a \<mapsto> ys[i := xs ! si])) (spend 1 (faults w)))
      else (Thrown, st w (heap w) None))"
  by (auto simp: copy_assign_elem_def slot_def assign_value_eq)

lemma move_assign_elem_eq:
  "heap w a = Some xs \<Longrightarrow> si < length xs \<Longrightarrow> xs ! si \<noteq> None \<Longrightarrow>
   i < length xs \<Longrightarrow> xs ! i \<noteq> None \<Longrightarrow>
   move_assign_elem tr (a, i) (a, si) w =
     (if enough 1 (faults w)
      then (Done, st w ((heap w)(a \<mapsto> xs[i := xs ! si, si := mf tr (xs ! si)])) (spend 1 (faults w)))
      else (Thrown, st w (heap w) None))"
  by (auto simp: move_assign_elem_def slot_def assign_value_eq put_def st_def)

lemma assign_loop_eq:
  "heap w sa = Some xs \<Longrightarrow> i + k \<le> length xs \<Longrightarrow> \<forall>j<k. xs ! (i + j) \<noteq> None \<Longrightarrow> sa \<noteq> a \<Longrightarrow>
   heap w a = Some ys \<Longrightarrow> i + k \<le> length ys \<Longrightarrow> \<forall>j<k. ys ! (i + j) \<noteq> None \<Longrightarrow>
   assign_loop a sa i k w =
     (if enough k (faults w)
      then (Done, st w ((heap w)(a \<mapsto> overlay ys i (take k (drop i xs)))) (spend k (faults w)))
      else (Thrown, st w ((heap w)(a \<mapsto> overlay ys i (take (left (faults w)) (drop i xs)))) None))"
proof (induction k arbitrary: i ys w)
  case 0
  then show ?case by (simp add: map_upd_triv st_id)
next
  case (Suc k)
  from Suc.prems have i: "i < length ys" and l: "ys ! i \<noteq> None" and si: "i < length xs" and x: "xs ! i \<noteq> None"
    by force+
  let ?x = "xs ! i"
  let ?f = "spend 1 (faults w)"
  let ?w = "st w ((heap w)(a \<mapsto> ys[i := ?x])) ?f"
  have 1: "copy_assign_elem (a, i) (sa, i) w =
      (if enough 1 (faults w) then (Done, ?w) else (Thrown, st w (heap w) None))"
    using Suc.prems i l si x by (simp add: copy_assign_elem_eq)
  have 2: "assign_loop a sa (Suc i) k ?w =
     (if enough k ?f
      then (Done, st ?w ((heap ?w)(a \<mapsto> overlay (ys[i := ?x]) (Suc i) (take k (drop (Suc i) xs)))) (spend k ?f))
      else (Thrown, st ?w ((heap ?w)(a \<mapsto> overlay (ys[i := ?x]) (Suc i) (take (left ?f) (drop (Suc i) xs)))) None))"
    using Suc.prems i shift_pre[OF Suc.prems(3)] shift_pre_upd[OF Suc.prems(7)]
    by (subst Suc.IH[where ys = "ys[i := ?x]"]) auto
  have 3: "overlay (ys[i := ?x]) (Suc i) (take m (drop (Suc i) xs)) = overlay ys i (take (Suc m) (drop i xs))" for m
    using i si by (simp add: overlay_Cons take_Suc_drop del: take_Suc)
  have 7: "(heap w)(a \<mapsto> ys) = heap w"
    using Suc.prems(5) by (auto simp: fun_eq_iff)
  have "assign_loop a sa i (Suc k) w =
     (if enough (Suc k) (faults w)
      then (Done, st w ((heap w)(a \<mapsto> overlay ys i (take (Suc k) (drop i xs)))) (spend (Suc k) (faults w)))
      else (Thrown, st w ((heap w)(a \<mapsto> overlay ys i (take (left (faults w)) (drop i xs)))) None))"
    unfolding assign_loop.simps andthen_def fst_conv snd_conv 1
    by (simp add: 2 3 7 enough_Suc[of k] spend_Suc[of k] left_0 left_spend del: take_Suc One_nat_def)
  then show ?case .
qed

lemma shift_right_0 [simp]: "shift_right tr xs p 0 = xs"
  by (rule nth_equalityI) (auto simp: shift_right_def)

lemma shift_left_0 [simp]: "shift_left tr xs p 0 = xs"
  by (rule nth_equalityI) (auto simp: shift_left_def)

lemma length_shift_right [simp]: "length (shift_right tr xs p n) = length xs"
  by (simp add: shift_right_def)

lemma length_shift_left [simp]: "length (shift_left tr xs p n) = length xs"
  by (simp add: shift_left_def)

lemma shift_right_step:
  "q + m + 1 < length xs \<Longrightarrow>
   shift_right tr (xs[q + m + 1 := xs ! (q + m), q + m := mf tr (xs ! (q + m))]) q m = shift_right tr xs q (Suc m)"
  by (rule nth_equalityI) (auto simp: shift_right_def nth_list_update)

lemma shift_left_step:
  "p + n + 1 < length xs \<Longrightarrow>
   shift_left tr (xs[p := xs ! (p + 1), p + 1 := mf tr (xs ! (p + 1))]) (Suc p) n = shift_left tr xs p (Suc n)"
  by (rule nth_equalityI) (auto simp: shift_left_def nth_list_update)

lemma left_less: "\<not> enough n f \<Longrightarrow> left f < n"
  by (auto simp: enough_def left_def split: option.splits)

lemma move_backward_n_eq:
  "heap w a = Some xs \<Longrightarrow> p + n < length xs \<Longrightarrow> \<forall>j\<le>n. xs ! (p + j) \<noteq> None \<Longrightarrow>
   move_backward_n tr (a, p) n (a, Suc (p + n)) w =
     (if enough n (faults w)
      then (Done, st w ((heap w)(a \<mapsto> shift_right tr xs p n)) (spend n (faults w)))
      else (Thrown, st w ((heap w)(a \<mapsto> shift_right tr xs (p + n - left (faults w)) (left (faults w)))) None))"
proof (induction n arbitrary: xs w)
  case 0
  then show ?case by (simp add: map_upd_triv st_id)
next
  case (Suc n)
  let ?f = "spend 1 (faults w)"
  let ?xs = "xs[Suc (p + n) := xs ! (p + n), p + n := mf tr (xs ! (p + n))]"
  let ?w = "st w ((heap w)(a \<mapsto> ?xs)) ?f"
  from Suc.prems have b: "Suc (p + n) < length xs" and l1: "xs ! (p + n) \<noteq> None" and l2: "xs ! Suc (p + n) \<noteq> None"
    by (auto dest: spec[of _ n] spec[of _ "Suc n"])
  have 1: "move_assign_elem tr (a, Suc (p + n)) (a, p + n) w =
      (if enough 1 (faults w) then (Done, ?w) else (Thrown, st w (heap w) None))"
    using Suc.prems(1) b l1 l2 by (simp add: move_assign_elem_eq)
  have pre: "\<forall>j\<le>n. ?xs ! (p + j) \<noteq> None"
    using Suc.prems(3) b l1 by (auto simp: nth_list_update)
  have 2: "move_backward_n tr (a, p) n (a, Suc (p + n)) ?w =
     (if enough n ?f
      then (Done, st w ((heap w)(a \<mapsto> shift_right tr ?xs p n)) (spend n ?f))
      else (Thrown, st w ((heap w)(a \<mapsto> shift_right tr ?xs (p + n - left ?f) (left ?f))) None))"
    using b pre by (subst Suc.IH[where xs = ?xs]) auto
  have 3: "shift_right tr ?xs p n = shift_right tr xs p (Suc n)"
    using shift_right_step[of p n xs tr] b by simp
  have 4: "shift_right tr ?xs (p + n - left ?f) (left ?f) = shift_right tr xs (p + Suc n - left (faults w)) (left (faults w))"
    if "enough 1 (faults w)" "\<not> enough n ?f"
  proof -
    define m where "m = left ?f"
    define q where "q = p + n - m"
    have m: "m < n" unfolding m_def using that(2) by (rule left_less)
    then have q: "q + m = p + n" by (simp add: q_def)
    have "shift_right tr (xs[q + m + 1 := xs ! (q + m), q + m := mf tr (xs ! (q + m))]) q m
        = shift_right tr xs q (Suc m)"
      using b q by (intro shift_right_step) simp
    then have "shift_right tr ?xs q m = shift_right tr xs q (Suc m)"
      unfolding q by simp
    moreover have "left (faults w) = Suc m" unfolding m_def using that by (rule left_spend)
    ultimately show ?thesis using m by (simp add: q_def m_def)
  qed
  have 7: "(heap w)(a \<mapsto> xs) = heap w"
    using Suc.prems(1) by (auto simp: fun_eq_iff)
  have "move_backward_n tr (a, p) (Suc n) (a, Suc (p + Suc n)) w =
     (if enough (Suc n) (faults w)
      then (Done, st w ((heap w)(a \<mapsto> shift_right tr xs p (Suc n))) (spend (Suc n) (faults w)))
      else (Thrown, st w ((heap w)(a \<mapsto> shift_right tr xs (p + Suc n - left (faults w)) (left (faults w)))) None))"
    unfolding move_backward_n.simps andthen_def fst_conv snd_conv
    using 1 2 3 4
    by (simp add: 7 enough_Suc[of n] spend_Suc[of n] left_0)
  then show ?case .
qed

lemma move_n_eq:
  "heap w a = Some xs \<Longrightarrow> p + n < length xs \<Longrightarrow> \<forall>j\<le>n. xs ! (p + j) \<noteq> None \<Longrightarrow>
   move_n tr (a, Suc p) n (a, p) w =
     (if enough n (faults w)
      then (Done, st w ((heap w)(a \<mapsto> shift_left tr xs p n)) (spend n (faults w)))
      else (Thrown, st w ((heap w)(a \<mapsto> shift_left tr xs p (left (faults w)))) None))"
proof (induction n arbitrary: p xs w)
  case 0
  then show ?case by (simp add: map_upd_triv st_id)
next
  case (Suc n)
  let ?f = "spend 1 (faults w)"
  let ?xs = "xs[p := xs ! Suc p, Suc p := mf tr (xs ! Suc p)]"
  let ?w = "st w ((heap w)(a \<mapsto> ?xs)) ?f"
  from Suc.prems have b: "Suc (p + n) < length xs" and l1: "xs ! p \<noteq> None" and l2: "xs ! Suc p \<noteq> None"
    by (auto dest: spec[of _ 0] spec[of _ "Suc 0"])
  have 1: "move_assign_elem tr (a, p) (a, Suc p) w =
      (if enough 1 (faults w) then (Done, ?w) else (Thrown, st w (heap w) None))"
    using Suc.prems(1) b l1 l2 by (simp add: move_assign_elem_eq)
  have pre: "\<forall>j\<le>n. ?xs ! (Suc p + j) \<noteq> None"
  proof (intro allI impI)
    fix j assume "j \<le> n"
    then have "xs ! (p + Suc j) \<noteq> None" using Suc.prems(3) by auto
    then show "?xs ! (Suc p + j) \<noteq> None" using b l2 by (auto simp: nth_list_update)
  qed
  have 2: "move_n tr (a, Suc (Suc p)) n (a, Suc p) ?w =
     (if enough n ?f
      then (Done, st w ((heap w)(a \<mapsto> shift_left tr ?xs (Suc p) n)) (spend n ?f))
      else (Thrown, st w ((heap w)(a \<mapsto> shift_left tr ?xs (Suc p) (left ?f))) None))"
    using b pre by (subst Suc.IH[where xs = ?xs]) auto
  have 3: "shift_left tr ?xs (Suc p) m = shift_left tr xs p (Suc m)" if "m \<le> n" for m
    using shift_left_step[of p m xs tr] b that by simp
  have 4: "shift_left tr ?xs (Suc p) (left ?f) = shift_left tr xs p (left (faults w))"
    if "enough 1 (faults w)" "\<not> enough n ?f"
    using 3[of "left ?f"] left_less[OF that(2)] left_spend[OF that] by simp
  have 7: "(heap w)(a \<mapsto> xs) = heap w"
    using Suc.prems(1) by (auto simp: fun_eq_iff)
  have "move_n tr (a, Suc p) (Suc n) (a, p) w =
     (if enough (Suc n) (faults w)
      then (Done, st w ((heap w)(a \<mapsto> shift_left tr xs p (Suc n))) (spend (Suc n) (faults w)))
      else (Thrown, st w ((heap w)(a \<mapsto> shift_left tr xs p (left (faults w)))) None))"
    unfolding move_n.simps andthen_def fst_conv snd_conv
    using 1 2 3[of n] 4
    by (simp add: 7 enough_Suc[of n] spend_Suc[of n] left_0)
  then show ?case .
qed

lemma length_packed [simp]: "length c \<le> cap \<Longrightarrow> length (packed c cap) = cap"
  by (simp add: packed_def)

lemma nth_packed: "i < cap \<Longrightarrow> packed c cap ! i = (if i < length c then Some (c ! i) else None)"
  by (auto simp: packed_def nth_append)

lemma live_prefix_packed: "length c \<le> cap \<Longrightarrow> live_prefix (length c) (packed c cap)"
  by (simp add: live_prefix_def packed_def list_all_iff)

lemma live_prefix_nth:
  "live_prefix n b \<longleftrightarrow> n \<le> length b \<and> (\<forall>i<length b. (b ! i \<noteq> None) = (i < n))"
proof (cases "n \<le> length b")
  case False
  then show ?thesis by (simp add: live_prefix_def)
next
  case True
  have 1: "list_all (\<lambda>x. x \<noteq> None) (take n b) \<longleftrightarrow> (\<forall>i<length b. i < n \<longrightarrow> b ! i \<noteq> None)"
    using True by (auto simp: list_all_length)
  have 2: "list_all (\<lambda>x. x = None) (drop n b) \<longleftrightarrow> (\<forall>i<length b. \<not> i < n \<longrightarrow> b ! i = None)"
  proof
    assume h: "list_all (\<lambda>x. x = None) (drop n b)"
    show "\<forall>i<length b. \<not> i < n \<longrightarrow> b ! i = None"
    proof (intro allI impI)
      fix i assume i: "i < length b" "\<not> i < n"
      then have "i - n < length b - n" "n + (i - n) = i" by auto
      with h True show "b ! i = None" by (auto simp: list_all_length)
    qed
  next
    assume "\<forall>i<length b. \<not> i < n \<longrightarrow> b ! i = None"
    then show "list_all (\<lambda>x. x = None) (drop n b)"
      using True by (auto simp: list_all_length)
  qed
  show ?thesis
    unfolding live_prefix_def 1 2 using True by auto
qed

lemma live_prefix_is_packed:
  assumes "live_prefix n b"
  shows "b = packed (map the (take n b)) (length b)"
proof (rule nth_equalityI)
  from assms have n: "n \<le> length b" by (simp add: live_prefix_nth)
  then show "length b = length (packed (map the (take n b)) (length b))" by simp
  fix i assume i: "i < length b"
  with assms n show "b ! i = packed (map the (take n b)) (length b) ! i"
    by (auto simp: nth_packed live_prefix_nth)
qed

lemma validD:
  assumes "valid w v"
  obtains c where "heap w (GetAddress v) = Some (packed c (Capacity v))" "length c = size_m v"
    "size_m v \<le> Capacity v" "contents w v = c" "(GetAddress v = 0) = (Capacity v = 0)"
proof -
  from assms obtain b where b: "heap w (GetAddress v) = Some b" "length b = Capacity v"
      "live_prefix (size_m v) b" and z: "(GetAddress v = 0) = (Capacity v = 0)"
    by (auto simp: valid_def split: option.splits)
  let ?c = "map the (take (size_m v) b)"
  have n: "size_m v \<le> length b" using b(3) by (simp add: live_prefix_nth)
  have "b = packed ?c (Capacity v)" using live_prefix_is_packed[OF b(3)] b(2) by simp
  then have "heap w (GetAddress v) = Some (packed ?c (Capacity v))" using b(1) by simp
  moreover have "length ?c = size_m v" using n by simp
  moreover have "contents w v = ?c" using b(1) by (simp add: contents_def)
  ultimately show ?thesis using that[of ?c] n b(2) z by simp
qed

lemma take_packed [simp]: "length c \<le> cap \<Longrightarrow> take (length c) (packed c cap) = map Some c"
  by (simp add: packed_def)

lemma validI:
  assumes "heap w (GetAddress v) = Some (packed c (Capacity v))" "length c = size_m v"
    "size_m v \<le> Capacity v" "(GetAddress v = 0) = (Capacity v = 0)"
  shows "valid w v" "contents w v = c"
  using assms live_prefix_packed[of c "Capacity v"] take_packed[of c "Capacity v"]
  by (auto simp: valid_def contents_def comp_def)

lemma st_allocs [simp]: "st (w\<lparr>allocs := A\<rparr>) H F = (st w H F)\<lparr>allocs := A\<rparr>"
  by (simp add: st_def)

lemma st_leaked [simp]: "st (w\<lparr>leaked := A\<rparr>) H F = (st w H F)\<lparr>leaked := A\<rparr>"
  by (simp add: st_def)

lemma wf_world_heap: "wf_world w \<Longrightarrow> wf_heap w"
  by (simp add: wf_world_def wf_heap_def)

lemma fits_st [simp]: "fits n (st w H F) = fits n w"
  by (simp add: fits_def)

lemma fits_mono: "fits n w \<Longrightarrow> m \<le> n \<Longrightarrow> fits m w"
  by (auto simp: fits_def intro: order_trans[OF mult_le_mono1])

lemma fits_PTRDIFF: "0 < sizeof_T w \<Longrightarrow> n * sizeof_T w \<le> PTRDIFF_MAX \<Longrightarrow> fits n w"
  by (simp add: fits_def PTRDIFF_MAX_def SIZE_MAX_def)

lemma fits_double:
  assumes "0 < sizeof_T w" "n * sizeof_T w \<le> PTRDIFF_MAX"
  shows "fits (n * 2) w"
proof -
  have "n * 2 * sizeof_T w = 2 * (n * sizeof_T w)" by simp
  also have "\<dots> \<le> 2 * PTRDIFF_MAX" using assms(2) by simp
  also have "\<dots> \<le> SIZE_MAX" by (simp add: PTRDIFF_MAX_def SIZE_MAX_def)
  finally show ?thesis using assms(1) by (simp add: fits_def)
qed

lemma no_wrap: "fits n w \<Longrightarrow> ((n * sizeof_T w) mod Suc SIZE_MAX) div sizeof_T w = n"
  by (simp add: fits_def)

lemma RawMemory_ctor_eq:
  "n \<noteq> 0 \<Longrightarrow> fits n w \<Longrightarrow> RawMemory_ctor n w =
     (if enough 1 (faults w)
      then (Some \<lparr>buffer_m = Suc (allocs w), capacity_m = n\<rparr>,
            (st w ((heap w)(Suc (allocs w) \<mapsto> replicate n None)) (spend 1 (faults w)))\<lparr>allocs := Suc (allocs w)\<rparr>)
      else (None, st w (heap w) None))"
  by (simp add: RawMemory_ctor_def Allocate_def fallible_eq st_def no_wrap)

lemma Deallocate_eq:
  "H a = Some b \<Longrightarrow> a \<noteq> 0 \<Longrightarrow> heap w = H \<Longrightarrow>
   Deallocate a w = (st w (H(a := None)) (faults w))\<lparr>leaked := leaked w + length (filter (\<lambda>x. x \<noteq> None) b)\<rparr>"
  by (auto simp: Deallocate_def st_def)

lemma Deallocate_null [simp]: "Deallocate 0 w = w"
  by (simp add: Deallocate_def)

lemma UninitializedMoveOrCopyN_eq:
  assumes "heap w sa = Some xs" "si + n \<le> length xs" "\<forall>k<n. xs ! (si + k) \<noteq> None" "sa \<noteq> a"
    "heap w a = Some ys" "i + n \<le> length ys" "\<forall>k<n. ys ! (i + k) = None"
  shows "UninitializedMoveOrCopyN tr (sa, si) n (a, i) w =
     (if enough (cost tr n) (faults w)
      then (Done, st w ((heap w)(sa \<mapsto> migrated tr n xs si, a \<mapsto> overlay ys i (take n (drop si xs))))
                     (spend (cost tr n) (faults w)))
      else (Thrown, st w ((heap w)(sa \<mapsto> migrated tr (left (faults w)) xs si)) None))"
proof (cases "nothrow_move_constructible tr \<or> \<not> copy_constructible tr")
  case True
  then show ?thesis
    using uninitialized_move_n_eq[OF assms, of tr]
    by (simp add: UninitializedMoveOrCopyN_def migrated_def)
next
  case False
  have "(heap w)(sa \<mapsto> xs) = heap w" using assms(1) by (auto simp: fun_eq_iff)
  with False show ?thesis
    using uninitialized_copy_n_eq[OF assms]
    by (simp add: UninitializedMoveOrCopyN_def migrated_def cost_def)
qed

lemma length_migrated [simp]: "si + m \<le> length xs \<Longrightarrow> length (migrated tr m xs si) = length xs"
  by (simp add: migrated_def)

lemma migrated_live: "k < length xs \<Longrightarrow> (migrated tr m xs si ! k = None) = (xs ! k = None)"
  by (auto simp: migrated_def overlay_def nth_append min_def)

lemma migrated_copy:
  "\<not> nothrow_move_constructible tr \<Longrightarrow> copy_constructible tr \<Longrightarrow> migrated tr m xs si = xs"
  by (simp add: migrated_def)

lemma migrated_0 [simp]: "migrated tr 0 xs si = xs"
  by (simp add: migrated_def)

lemma migrated_twice:
  "p + j \<le> length xs \<Longrightarrow> migrated tr j (migrated tr p xs 0) p = migrated tr (p + j) xs 0"
  by (auto simp: migrated_def overlay_def take_add min_def)

lemma length_moved_out [simp]: "length (moved_out tr j c) = length c"
  by (simp add: moved_out_def)

lemma moved_out_0 [simp]: "moved_out tr 0 c = c"
  by (simp add: moved_out_def)

lemma migrated_packed:
  assumes "j \<le> length c" "length c \<le> cap"
  shows "migrated tr j (packed c cap) 0 =
     (if nothrow_move_constructible tr \<or> \<not> copy_constructible tr
      then packed (moved_out tr j c) cap else packed c cap)"
  using assms
  by (auto simp: migrated_def overlay_def packed_def moved_out_def mf_def take_map drop_map comp_def)

lemma enough_cost_nothrow [simp]: "nothrow_move_constructible tr \<Longrightarrow> enough (cost tr n) f"
  by (simp add: cost_def)

lemma overlay_fresh_packed:
  "length c \<le> cap \<Longrightarrow> length c \<le> n \<Longrightarrow>
   overlay (replicate n None) 0 (take (length c) (drop 0 (packed c cap))) = packed c n"
  by (simp add: overlay_def packed_def)

lemma filter_live_replicate [simp]: "filter (\<lambda>x. x \<noteq> None) (replicate n None) = []"
  by simp

lemma overlay_destroy_all:
  assumes "length zs = cap" "\<forall>k<cap. (zs ! k = None) = (packed c cap ! k = None)" "length c \<le> cap"
  shows "overlay zs 0 (replicate (length c) None) = replicate cap None"
proof (rule nth_equalityI)
  show "length (overlay zs 0 (replicate (length c) None)) = length (replicate cap None)"
    using assms by simp
  fix k assume "k < length (overlay zs 0 (replicate (length c) None))"
  then have k: "k < cap" using assms by simp
  show "overlay zs 0 (replicate (length c) None) ! k = replicate cap None ! k"
    using assms k by (auto simp: overlay_def nth_append nth_packed)
qed

lemma wf_heapD:
  assumes "wf_heap w"
  shows "heap w 0 = Some []" "heap w (Suc (allocs w)) = None" "heap w a = Some b \<Longrightarrow> a \<noteq> Suc (allocs w)"
  using assms by (auto simp: wf_heap_def dest: spec[of _ "Suc (allocs w)"])

lemma Reserve_grow:
  assumes wf: "wf_heap w" and v: "valid w v" and n: "Capacity v < n" and fit: "fits n w"
  shows "\<exists>w'. Reserve tr n v w =
        (if enough (Suc (cost tr (size_m v))) (faults w)
         then (Done, v\<lparr>data_m := \<lparr>buffer_m = Suc (allocs w), capacity_m = n\<rparr>\<rparr>, w')
         else (Thrown, v, w')) \<and>
      heap w' =
        (if enough (Suc (cost tr (size_m v))) (faults w)
         then release (GetAddress v) ((heap w)(Suc (allocs w) \<mapsto> packed (contents w v) n))
         else (heap w)(GetAddress v \<mapsto>
                migrated tr (left (spend 1 (faults w))) (packed (contents w v) (Capacity v)) 0)) \<and>
      leaked w' = leaked w \<and> allocs w' = (if enough 1 (faults w) then Suc (allocs w) else allocs w) \<and>
      faults w' =
        (if enough (Suc (cost tr (size_m v))) (faults w)
         then spend (Suc (cost tr (size_m v))) (faults w) else None) \<and>
      sizeof_T w' = sizeof_T w"
proof -
  let ?a = "GetAddress v" and ?b = "Suc (allocs w)" and ?s = "size_m v" and ?cap = "Capacity v"
  let ?f = "faults w"
  from v obtain c where c: "heap w ?a = Some (packed c ?cap)" "length c = ?s" "?s \<le> ?cap"
      "contents w v = c" "(?a = 0) = (?cap = 0)"
    by (rule validD)
  let ?xs = "packed c ?cap"
  have ab: "?a \<noteq> ?b" and fresh: "heap w ?b = None"
    using wf_heapD[OF wf] c(1) by auto
  have n0: "n \<noteq> 0" using n by simp
  have trivial_a: "(heap w)(?a \<mapsto> ?xs) = heap w"
    using c(1) by (auto simp: fun_eq_iff)
  show ?thesis
  proof (cases "enough 1 ?f")
    case False
    then have "Reserve tr n v w = (Thrown, v, st w (heap w) None)"
      using n by (simp add: Reserve_def RawMemory_ctor_eq[OF n0 fit])
    moreover have "left (spend 1 ?f) = 0"
      using False by (auto simp: enough_def spend_def left_def split: option.splits)
    ultimately show ?thesis
      using False trivial_a c(4) by (auto simp: enough_Suc[of "cost tr ?s"] intro!: exI[of _ "st w (heap w) None"])
  next
    case True
    let ?f1 = "spend 1 ?f"
    let ?H1 = "(heap w)(?b \<mapsto> replicate n None)"
    let ?w1 = "(st w ?H1 ?f1)\<lparr>allocs := ?b\<rparr>"
    let ?nd = "\<lparr>buffer_m = ?b, capacity_m = n\<rparr>"
    have A: "RawMemory_ctor n w = (Some ?nd, ?w1)"
      using True by (simp add: RawMemory_ctor_eq[OF n0 fit])
    have live: "\<forall>k<?s. ?xs ! (0 + k) \<noteq> None"
      using c(2,3) by (simp add: nth_packed)
    have M: "UninitializedMoveOrCopyN tr (?a, 0) ?s (?b, 0) ?w1 =
       (if enough (cost tr ?s) ?f1
        then (Done, st ?w1 (?H1(?a \<mapsto> migrated tr ?s ?xs 0, ?b \<mapsto> packed c n)) (spend (cost tr ?s) ?f1))
        else (Thrown, st ?w1 (?H1(?a \<mapsto> migrated tr (left ?f1) ?xs 0)) None))"
      using c ab n live overlay_fresh_packed[of c ?cap n]
      by (subst UninitializedMoveOrCopyN_eq[where xs = ?xs and ys = "replicate n None"]) auto
    show ?thesis
    proof (cases "enough (cost tr ?s) ?f1")
      case False
      let ?w' = "(st w ((heap w)(?a \<mapsto> migrated tr (left ?f1) ?xs 0)) None)\<lparr>allocs := ?b\<rparr>"
      have "Deallocate ?b (st ?w1 (?H1(?a \<mapsto> migrated tr (left ?f1) ?xs 0)) None) = ?w'"
        using ab fresh
        by (subst Deallocate_eq[where b = "replicate n None" and H = "?H1(?a \<mapsto> migrated tr (left ?f1) ?xs 0)"])
           (auto simp: fun_eq_iff)
      then have "Reserve tr n v w = (Thrown, v, ?w')"
        using n False A M by (simp add: Reserve_def andthen_def RawMemory_dtor_def)
      then show ?thesis
        using False True c(4) by (auto simp: enough_Suc[of "cost tr ?s"] intro!: exI[of _ ?w'])
    next
      case E: True
      let ?f2 = "spend (cost tr ?s) ?f1"
      let ?xm = "migrated tr ?s ?xs 0"
      let ?H2 = "?H1(?a \<mapsto> ?xm, ?b \<mapsto> packed c n)"
      let ?w2 = "st ?w1 ?H2 ?f2"
      have xm: "length ?xm = ?cap" "\<forall>k<?cap. (?xm ! k = None) = (?xs ! k = None)"
        using c(2,3) by (simp_all add: migrated_live)
      have D: "destroy_n (?a, 0) ?s ?w2 = (Done, st ?w2 (?H2(?a \<mapsto> replicate ?cap None)) ?f2)"
        using ab xm c(2,3) overlay_destroy_all[OF xm(1) xm(2)]
        by (subst destroy_n_eq[where ys = ?xm]) (auto simp: nth_packed)
      let ?w3 = "st ?w2 (?H2(?a \<mapsto> replicate ?cap None)) ?f2"
      let ?w' = "(st w (release ?a ((heap w)(?b \<mapsto> packed c n))) ?f2)\<lparr>allocs := ?b\<rparr>"
      have R: "Deallocate ?a ?w3 = ?w'"
      proof (cases "?a = 0")
        case True
        then have "?cap = 0" using c(5) by simp
        then show ?thesis using True wf_heapD(1)[OF wf] ab
          by (auto simp: release_def fun_eq_iff)
      next
        case False
        then show ?thesis using ab
          by (subst Deallocate_eq[where b = "replicate ?cap None" and H = "?H2(?a \<mapsto> replicate ?cap None)"])
             (auto simp: release_def fun_eq_iff)
      qed
      have "Reserve tr n v w = (Done, v\<lparr>data_m := ?nd\<rparr>, ?w')"
        using n E A M D R by (simp add: Reserve_def andthen_def RawMemory_dtor_def RawMemory_Swap_def GetAddress_def)
      then show ?thesis
        using E True c(4) by (auto simp: enough_Suc[of "cost tr ?s"] spend_Suc[of "cost tr ?s"] intro!: exI[of _ ?w'])
    qed
  qed
qed

lemma shape_eq_refl [simp]: "shape_eq xs xs"
  by (simp add: shape_eq_def)

lemma shape_eq_trans: "shape_eq zs ys \<Longrightarrow> shape_eq ys xs \<Longrightarrow> shape_eq zs xs"
  by (simp add: shape_eq_def)

lemma shape_migrated: "si + k \<le> length xs \<Longrightarrow> shape_eq (migrated tr k xs si) xs"
  by (simp add: shape_eq_def migrated_live)

lemma UMoC_N:
  "UninitializedMoveOrCopy tr f l d = UninitializedMoveOrCopyN tr f (snd l - snd f) d"
  by (simp add: UninitializedMoveOrCopy_def UninitializedMoveOrCopyN_def uninitialized_move_def
      uninitialized_copy_def)

lemma take_packed_le: "p \<le> length c \<Longrightarrow> length c \<le> cap \<Longrightarrow> take p (packed c cap) = map Some (take p c)"
  by (simp add: packed_def take_map)

lemma drop_migrated:
  "si + k \<le> length xs \<Longrightarrow> drop (si + k) (migrated tr k xs si) = drop (si + k) xs"
  by (simp add: migrated_def overlay_def min_def)

lemma take_drop_packed:
  "p \<le> length c \<Longrightarrow> length c \<le> cap \<Longrightarrow> take (length c - p) (drop p (packed c cap)) = map Some (drop p c)"
  by (simp add: packed_def drop_map)

lemma grow_block:
  assumes "p \<le> length c" "length c < m"
  shows "overlay (overlay ((replicate m None)[p := Some x]) 0 (map Some (take p c))) (Suc p)
           (map Some (drop p c)) = packed (take p c @ x # drop p c) m"
  using assms
  by (intro nth_equalityI) (auto simp: overlay_def nth_append nth_list_update min_def packed_def nth_Cons')

lemma undo_first:
  assumes "p \<le> length c" "length c < m"
  shows "overlay (overlay ((replicate m None)[p := Some x]) 0 (map Some (take p c))) 0
           (replicate (Suc p) None) = replicate m None"
  using assms
  by (intro nth_equalityI) (auto simp: overlay_def nth_append nth_list_update min_def nth_Cons')

lemma Vector_upd2 [simp]: "(v::Vector)\<lparr>data_m := d, size_m := n\<rparr> = \<lparr>data_m = d, size_m = n\<rparr>"
  by simp

lemma shape_eq_live: "shape_eq zs xs \<Longrightarrow> k < length xs \<Longrightarrow> (zs ! k \<noteq> None) = (xs ! k \<noteq> None)"
  by (simp add: shape_eq_def)

lemma replicate_update_same [simp]: "(replicate m x)[p := x] = replicate m x"
  by (cases "p < m") (simp_all add: list_update_same_conv list_update_beyond)

lemma grow_body:
  fixes tr :: "'a traits" and w1 :: "'a world"
  assumes a: "heap w1 a = Some (packed c s)" "length c = s"
    and b: "heap w1 b = Some (replicate m None)" and ab: "a \<noteq> b" and p: "p \<le> s" and sm: "s < m"
  defines "E \<equiv> enough (Suc (cost tr s)) (faults w1)"
  shows "\<exists>zs. andthen (emplace_new (b, p) x)
                 (andthen
                    (on_throw (UninitializedMoveOrCopyN tr (a, 0) p (b, 0)) (destroy_at (b, p)))
                    (andthen
                       (on_throw (UninitializedMoveOrCopyN tr (a, p) (s - p) (b, Suc p))
                          (destroy_n (b, 0) (Suc p)))
                       (destroy_n (a, 0) s))) w1 =
        (if E then (Done, st w1 ((heap w1)(a \<mapsto> replicate s None,
                                   b \<mapsto> packed (take p c @ x # drop p c) m))
                           (spend (Suc (cost tr s)) (faults w1)))
         else (Thrown, st w1 ((heap w1)(a \<mapsto> zs)) None)) \<and>
      shape_eq zs (packed c s) \<and>
      (nothrow_move_constructible tr \<or> copy_constructible tr \<or> \<not> enough 1 (faults w1)
         \<longrightarrow> zs = packed c s) \<and>
      (\<not> E \<longrightarrow> zs = migrated tr (left (spend 1 (faults w1))) (packed c s) 0)"
proof -
  let ?f = "faults w1" and ?xs = "packed c s" and ?H = "heap w1"
  let ?body = "andthen (emplace_new (b, p) x)
                 (andthen
                    (on_throw (UninitializedMoveOrCopyN tr (a, 0) p (b, 0)) (destroy_at (b, p)))
                    (andthen
                       (on_throw (UninitializedMoveOrCopyN tr (a, p) (s - p) (b, Suc p))
                          (destroy_n (b, 0) (Suc p)))
                       (destroy_n (a, 0) s)))"
  have triv: "?H(a \<mapsto> ?xs) = ?H" "?H(b \<mapsto> replicate m None) = ?H"
      "\<And>zs. ?H(a \<mapsto> zs, b \<mapsto> replicate m None) = ?H(a \<mapsto> zs)"
    using a(1) b ab by (auto simp: fun_eq_iff)
  have E: "E \<longleftrightarrow> enough 1 ?f \<and> enough (cost tr p) (spend 1 ?f)
      \<and> enough (cost tr (s - p)) (spend (cost tr p) (spend 1 ?f))"
    using p by (auto simp: E_def enough_def spend_def cost_def split: option.splits)
  have Ef: "spend (Suc (cost tr s)) ?f = spend (cost tr (s - p)) (spend (cost tr p) (spend 1 ?f))"
    using p by (auto simp: spend_def cost_def split: option.splits)
  let ?ys0 = "(replicate m None)[p := Some x]"
  let ?f1 = "spend 1 ?f"
  let ?w2 = "st w1 (?H(b \<mapsto> ?ys0)) ?f1"
  have B: "emplace_new (b, p) x w1 =
      (if enough 1 ?f then (Done, ?w2) else (Thrown, st w1 ?H None))"
    using b p sm by (subst emplace_new_eq[where ys = "replicate m None"]) auto
  show ?thesis
  proof (cases "enough 1 ?f")
    case False
    then have "?body w1 = (Thrown, st w1 (?H(a \<mapsto> ?xs)) None)"
      using B by (simp add: andthen_def triv)
    moreover have "left (spend 1 ?f) = 0"
      using False by (auto simp: enough_def spend_def left_def split: option.splits)
    ultimately show ?thesis using False E by (intro exI[of _ ?xs]) simp
  next
    case e1: True
    have live1: "\<forall>k<p. ?xs ! (0 + k) \<noteq> None" and raw1: "\<forall>k<p. ?ys0 ! (0 + k) = None"
      using a(2) p sm by (auto simp: nth_packed)
    let ?xs1 = "migrated tr p ?xs 0"
    let ?ys1 = "overlay ?ys0 0 (map Some (take p c))"
    let ?f2 = "spend (cost tr p) ?f1"
    let ?w3 = "st w1 (?H(a \<mapsto> ?xs1, b \<mapsto> ?ys1)) ?f2"
    have M1: "UninitializedMoveOrCopyN tr (a, 0) p (b, 0) ?w2 =
       (if enough (cost tr p) ?f1 then (Done, ?w3)
        else (Thrown, st w1 (?H(a \<mapsto> migrated tr (left ?f1) ?xs 0, b \<mapsto> ?ys0)) None))"
      using a ab p sm live1 raw1 take_packed_le[of p c s]
      by (subst UninitializedMoveOrCopyN_eq[where xs = ?xs and ys = ?ys0]) (auto simp: fun_upd_twist)
    show ?thesis
    proof (cases "enough (cost tr p) ?f1")
      case False
      let ?zs = "migrated tr (left ?f1) ?xs 0"
      have nt: "\<not> nothrow_move_constructible tr" using False by auto
      have U: "destroy_at (b, p) (st w1 (?H(a \<mapsto> ?zs, b \<mapsto> ?ys0)) None) =
          (Done, st w1 (?H(a \<mapsto> ?zs)) None)"
        using p sm ab triv(3)
        by (subst destroy_at_st[where ys = ?ys0]) auto
      have "?body w1 = (Thrown, st w1 (?H(a \<mapsto> ?zs)) None)"
        using B M1 U e1 False by (simp add: andthen_def on_throw_def)
      moreover have "shape_eq ?zs ?xs"
        using a(2) left_less[OF False] p nt by (intro shape_migrated) (simp add: cost_def)
      moreover have "copy_constructible tr \<longrightarrow> ?zs = ?xs"
        using nt by (simp add: migrated_copy)
      ultimately show ?thesis using False E nt e1 by (intro exI[of _ ?zs]) simp
    next
      case e2: True
      have sh1: "shape_eq ?xs1 ?xs" using a(2) p by (intro shape_migrated) simp
      have len1: "length ?xs1 = s" using a(2) p by simp
      have live2: "\<forall>k<s - p. ?xs1 ! (p + k) \<noteq> None"
        using shape_eq_live[OF sh1] a(2) by (auto simp: nth_packed)
      have raw2: "\<forall>k<s - p. ?ys1 ! (Suc p + k) = None"
        using a(2) p sm by (auto simp: overlay_def nth_append min_def)
      have tk: "take (s - p) (drop p ?xs1) = map Some (drop p c)"
        using drop_migrated[of 0 p ?xs tr] take_drop_packed[of p c s] a(2) p by simp
      let ?xs2 = "migrated tr (s - p) ?xs1 p"
      let ?ys2 = "packed (take p c @ x # drop p c) m"
      let ?f3 = "spend (cost tr (s - p)) ?f2"
      let ?w4 = "st w1 (?H(a \<mapsto> ?xs2, b \<mapsto> ?ys2)) ?f3"
      have M2: "UninitializedMoveOrCopyN tr (a, p) (s - p) (b, Suc p) ?w3 =
         (if enough (cost tr (s - p)) ?f2 then (Done, ?w4)
          else (Thrown, st w1 (?H(a \<mapsto> migrated tr (left ?f2) ?xs1 p, b \<mapsto> ?ys1)) None))"
        using a ab p sm live2 raw2 len1 tk grow_block[of p c m x]
        by (subst UninitializedMoveOrCopyN_eq[where xs = ?xs1 and ys = ?ys1]) (auto simp: fun_upd_twist)
      show ?thesis
      proof (cases "enough (cost tr (s - p)) ?f2")
        case False
        let ?zs = "migrated tr (left ?f2) ?xs1 p"
        have nt: "\<not> nothrow_move_constructible tr" using False by auto
        have live3: "\<forall>k<Suc p. ?ys1 ! (0 + k) \<noteq> None"
          using a(2) p sm by (auto simp: overlay_def nth_append min_def nth_list_update less_Suc_eq)
        have U: "destroy_n (b, 0) (Suc p) (st w1 (?H(a \<mapsto> ?zs, b \<mapsto> ?ys1)) None) =
            (Done, st w1 (?H(a \<mapsto> ?zs)) None)"
          using a(2) p sm ab triv(3) live3 undo_first[of p c m x]
          by (subst destroy_n_eq[where ys = ?ys1]) auto
        have "?body w1 = (Thrown, st w1 (?H(a \<mapsto> ?zs)) None)"
          using B M1 M2 U e1 e2 False by (simp add: andthen_def on_throw_def)
        moreover have "shape_eq ?zs ?xs"
        proof (rule shape_eq_trans[OF _ sh1])
          show "shape_eq ?zs ?xs1"
            using left_less[OF False] len1 nt by (intro shape_migrated) (simp add: cost_def)
        qed
        moreover have "copy_constructible tr \<longrightarrow> ?zs = ?xs"
          using nt by (simp add: migrated_copy)
        moreover have "?zs = migrated tr (left ?f1) ?xs 0"
        proof -
          have l: "left ?f2 < s - p" using left_less[OF False] nt by (simp add: cost_def)
          have "p + left ?f2 = left ?f1"
            using e2 False nt by (auto simp: enough_def spend_def left_def cost_def split: option.splits)
          moreover have "p + left ?f2 \<le> length ?xs" using l a(2) p by simp
          ultimately show ?thesis using migrated_twice[of p "left ?f2" ?xs tr] by simp
        qed
        ultimately show ?thesis using False E nt e1 by (intro exI[of _ ?zs]) simp
      next
        case e3: True
        have sh2: "shape_eq ?xs2 ?xs"
          using len1 p by (intro shape_eq_trans[OF _ sh1] shape_migrated) simp
        have len2: "length ?xs2 = s" using sh2 a(2) by (simp add: shape_eq_def)
        have live4: "\<forall>k<s. ?xs2 ! (0 + k) \<noteq> None"
          using shape_eq_live[OF sh2] a(2) by (auto simp: nth_packed)
        have all: "overlay ?xs2 0 (replicate s None) = replicate s None"
          using len2 by (simp add: overlay_def)
        have D: "destroy_n (a, 0) s ?w4 =
            (Done, st w1 (?H(a \<mapsto> replicate s None, b \<mapsto> ?ys2)) ?f3)"
          using ab len2 live4 all
          by (subst destroy_n_eq[where ys = ?xs2]) (auto simp: fun_upd_twist)
        have "?body w1 = (Done, st w1 (?H(a \<mapsto> replicate s None, b \<mapsto> ?ys2)) ?f3)"
          using B M1 M2 D e1 e2 e3 by (simp add: andthen_def on_throw_def)
        then show ?thesis using e1 e2 e3 E Ef by (intro exI[of _ ?xs]) simp
      qed
    qed
  qed
qed

lemma empty_migration:
  "andthen (on_throw (UninitializedMoveOrCopyN tr f 0 d) h) g = g"
  by (simp add: fun_eq_iff andthen_def on_throw_def UninitializedMoveOrCopyN_def)

lemma RawMemory_Swap_eq [simp]: "RawMemory_Swap a b = (b, a)"
  by (cases a, cases b) (simp add: RawMemory_Swap_def)

lemma Emplace_full:
  assumes "size_m v = Capacity v" "p \<le> size_m v"
  shows "Emplace tr (GetAddress v, p) x v w =
     (case grow tr p x v w of
        (r, v', w') \<Rightarrow> (r, (if r = Done then (GetAddress v', p) else (GetAddress v, p)), v', w'))"
proof -
  let ?M = "if size_m v = 0 then 1 else size_m v * 2"
  obtain o1 w1 where A: "RawMemory_ctor ?M w = (o1, w1)"
    by (cases "RawMemory_ctor ?M w")
  show ?thesis
  proof (cases o1)
    case None
    with assms show ?thesis
      unfolding Emplace_def grow_def Let_def A by simp
  next
    case (Some nd)
    let ?body = "andthen (emplace_new (buffer_m nd, p) x)
                 (andthen
                    (on_throw (UninitializedMoveOrCopyN tr (GetAddress v, 0) p (buffer_m nd, 0))
                       (destroy_at (buffer_m nd, p)))
                    (andthen
                       (on_throw (UninitializedMoveOrCopyN tr (GetAddress v, p) (size_m v - p)
                                    (buffer_m nd, Suc p))
                          (destroy_n (buffer_m nd, 0) (Suc p)))
                       (destroy_n (GetAddress v, 0) (size_m v))))"
    obtain r w2 where B: "?body w1 = (r, w2)" by (cases "?body w1")
    have G: "grow tr p x v w = (case r of Done \<Rightarrow> (Done, \<lparr>data_m = nd, size_m = Suc (size_m v)\<rparr>,
                              RawMemory_dtor (data_m v) w2) | _ \<Rightarrow> (r, v, RawMemory_dtor nd w2))"
      unfolding grow_def A Some using B by (simp split: outcome.splits)
    have "Emplace tr (GetAddress v, p) x v w =
        (case r of Done \<Rightarrow> (Done, (buffer_m nd, p), \<lparr>data_m = nd, size_m = Suc (size_m v)\<rparr>,
                              RawMemory_dtor (data_m v) w2) | _ \<Rightarrow> (r, (GetAddress v, p), v, RawMemory_dtor nd w2))"
      unfolding Emplace_def Let_def A Some using B assms
      by (simp add: begin_it_def end_it_def UMoC_N destroy_def split: outcome.splits)
    then show ?thesis
      unfolding G by (simp add: GetAddress_def split: outcome.splits)
  qed
qed

lemma EmplaceBackImpl_full:
  assumes "size_m v = Capacity v"
  shows "EmplaceBackImpl tr x v w = grow tr (size_m v) x v w"
proof -
  let ?M = "if size_m v = 0 then 1 else size_m v * 2"
  obtain o1 w1 where A: "RawMemory_ctor ?M w = (o1, w1)"
    by (cases "RawMemory_ctor ?M w")
  show ?thesis
  proof (cases o1)
    case None
    with assms show ?thesis
      unfolding EmplaceBackImpl_def grow_def A by simp
  next
    case (Some nd)
    let ?body = "andthen (emplace_new (buffer_m nd, size_m v) x)
                 (andthen
                    (on_throw (UninitializedMoveOrCopyN tr (GetAddress v, 0) (size_m v) (buffer_m nd, 0))
                       (destroy_at (buffer_m nd, size_m v)))
                    (destroy_n (GetAddress v, 0) (size_m v)))"
    obtain r w2 where B: "?body w1 = (r, w2)" by (cases "?body w1")
    have G: "grow tr (size_m v) x v w = (case r of Done \<Rightarrow> (Done, \<lparr>data_m = nd, size_m = Suc (size_m v)\<rparr>,
                              RawMemory_dtor (data_m v) w2) | _ \<Rightarrow> (r, v, RawMemory_dtor nd w2))"
      unfolding grow_def A Some using B by (simp add: empty_migration split: outcome.splits)
    have "EmplaceBackImpl tr x v w =
        (case r of Done \<Rightarrow> (Done, \<lparr>data_m = nd, size_m = Suc (size_m v)\<rparr>,
                              RawMemory_dtor (data_m v) w2) | _ \<Rightarrow> (r, v, RawMemory_dtor nd w2))"
      unfolding EmplaceBackImpl_def A Some using B assms
      by (simp split: outcome.splits)
    then show ?thesis
      unfolding G .
  qed
qed

lemma grow_all:
  fixes tr :: "'a traits" and w :: "'a world" and x :: 'a
  assumes wf: "wf_heap w" and v: "valid w v" and full: "size_m v = Capacity v" and p: "p \<le> size_m v"
    and m: "m = (if size_m v = 0 then 1 else size_m v * 2)" and fit: "fits m w"
  defines "E \<equiv> enough (Suc (Suc (cost tr (size_m v)))) (faults w)"
  defines "body \<equiv> \<lambda>b. andthen (emplace_new (b, p) x)
                 (andthen
                    (on_throw (UninitializedMoveOrCopyN tr (GetAddress v, 0) p (b, 0)) (destroy_at (b, p)))
                    (andthen
                       (on_throw (UninitializedMoveOrCopyN tr (GetAddress v, p) (size_m v - p) (b, Suc p))
                          (destroy_n (b, 0) (Suc p)))
                       (destroy_n (GetAddress v, 0) (size_m v))))"
  shows "\<exists>w' zs. grow tr p x v w =
        (if E then (Done, \<lparr>data_m = \<lparr>buffer_m = Suc (allocs w), capacity_m = m\<rparr>,
                          size_m = Suc (size_m v)\<rparr>, w')
         else (Thrown, v, w')) \<and>
      heap w' =
        (if E then release (GetAddress v)
                     ((heap w)(Suc (allocs w) \<mapsto>
                        packed (take p (contents w v) @ x # drop p (contents w v)) m))
         else (heap w)(GetAddress v \<mapsto> zs)) \<and>
      shape_eq zs (packed (contents w v) (Capacity v)) \<and>
      (nothrow_move_constructible tr \<or> copy_constructible tr \<or> \<not> enough 2 (faults w)
         \<longrightarrow> zs = packed (contents w v) (Capacity v)) \<and>
      (\<not> E \<longrightarrow> zs = migrated tr (left (spend 2 (faults w))) (packed (contents w v) (Capacity v)) 0) \<and>
      leaked w' = leaked w \<and> allocs w' = (if enough 1 (faults w) then Suc (allocs w) else allocs w) \<and>
      faults w' = (if E then spend (Suc (Suc (cost tr (size_m v)))) (faults w) else None)"
proof -
  let ?a = "GetAddress v" and ?b = "Suc (allocs w)" and ?s = "size_m v"
  let ?f = "faults w"
  from v obtain c where c: "heap w ?a = Some (packed c ?s)" "length c = ?s"
      "contents w v = c" "(?a = 0) = (?s = 0)"
    using full by (auto elim: validD)
  let ?xs = "packed c ?s"
  have ab: "?a \<noteq> ?b" and fresh: "heap w ?b = None"
    using wf_heapD[OF wf] c(1) by auto
  have m0: "m \<noteq> 0" and sm: "?s < m" by (auto simp: m)
  have trivial_a: "(heap w)(?a \<mapsto> ?xs) = heap w"
    using c(1) by (auto simp: fun_eq_iff)
  have E: "E \<longleftrightarrow> enough 1 ?f \<and> enough (Suc (cost tr ?s)) (spend 1 ?f)"
    by (simp add: E_def enough_Suc[of "Suc (cost tr ?s)"])
  have G: "grow tr p x v w =
      (case RawMemory_ctor m w of
         (None, w1) \<Rightarrow> (Thrown, v, w1)
       | (Some new_data, w1) \<Rightarrow>
           (case body (buffer_m new_data) w1 of
              (Done, w2) \<Rightarrow> (Done, \<lparr>data_m = new_data, size_m = Suc (size_m v)\<rparr>,
                              RawMemory_dtor (data_m v) w2)
            | (r, w2) \<Rightarrow> (r, v, RawMemory_dtor new_data w2)))"
    unfolding grow_def body_def m ..
  have "\<exists>w' zs. (case RawMemory_ctor m w of
         (None, w1) \<Rightarrow> (Thrown, v, w1)
       | (Some new_data, w1) \<Rightarrow>
           (case body (buffer_m new_data) w1 of
              (Done, w2) \<Rightarrow> (Done, \<lparr>data_m = new_data, size_m = Suc (size_m v)\<rparr>,
                              RawMemory_dtor (data_m v) w2)
            | (r, w2) \<Rightarrow> (r, v, RawMemory_dtor new_data w2))) =
        (if E then (Done, \<lparr>data_m = \<lparr>buffer_m = Suc (allocs w), capacity_m = m\<rparr>,
                          size_m = Suc (size_m v)\<rparr>, w')
         else (Thrown, v, w')) \<and>
      heap w' =
        (if E then release (GetAddress v)
                     ((heap w)(Suc (allocs w) \<mapsto>
                        packed (take p (contents w v) @ x # drop p (contents w v)) m))
         else (heap w)(GetAddress v \<mapsto> zs)) \<and>
      shape_eq zs (packed (contents w v) (Capacity v)) \<and>
      (nothrow_move_constructible tr \<or> copy_constructible tr \<or> \<not> enough 2 (faults w)
         \<longrightarrow> zs = packed (contents w v) (Capacity v)) \<and>
      (\<not> E \<longrightarrow> zs = migrated tr (left (spend 2 (faults w))) (packed (contents w v) (Capacity v)) 0) \<and>
      leaked w' = leaked w \<and> allocs w' = (if enough 1 (faults w) then Suc (allocs w) else allocs w) \<and>
      faults w' = (if E then spend (Suc (Suc (cost tr (size_m v)))) (faults w) else None)"
  proof (cases "enough 1 ?f")
    case False
    then have "RawMemory_ctor m w = (None, st w (heap w) None)"
      by (simp add: RawMemory_ctor_eq[OF m0 fit])
    moreover have "left (spend 2 ?f) = 0"
      using False by (auto simp: enough_def spend_def left_def split: option.splits)
    ultimately show ?thesis
      using False E trivial_a c(3) full
      by (intro exI[of _ "st w (heap w) None"] exI[of _ ?xs]) simp
  next
    case e1: True
    let ?f1 = "spend 1 ?f"
    let ?H1 = "(heap w)(?b \<mapsto> replicate m None)"
    let ?w1 = "(st w ?H1 ?f1)\<lparr>allocs := ?b\<rparr>"
    let ?nd = "\<lparr>buffer_m = ?b, capacity_m = m\<rparr>"
    have A: "RawMemory_ctor m w = (Some ?nd, ?w1)"
      using e1 by (simp add: RawMemory_ctor_eq[OF m0 fit])
    have "heap ?w1 ?a = Some (packed c ?s)" "heap ?w1 ?b = Some (replicate m None)"
      using c(1) ab by simp_all
    from grow_body[OF this(1) c(2) this(2) ab p sm, where tr = tr and x = x]
    obtain zs where zs: "body ?b ?w1 =
        (if enough (Suc (cost tr ?s)) (faults ?w1)
         then (Done, st ?w1 ((heap ?w1)(?a \<mapsto> replicate ?s None,
                                   ?b \<mapsto> packed (take p c @ x # drop p c) m))
                           (spend (Suc (cost tr ?s)) (faults ?w1)))
         else (Thrown, st ?w1 ((heap ?w1)(?a \<mapsto> zs)) None))"
      "shape_eq zs ?xs"
      "nothrow_move_constructible tr \<or> copy_constructible tr \<or> \<not> enough 1 (faults ?w1) \<longrightarrow> zs = ?xs"
      "\<not> enough (Suc (cost tr ?s)) (faults ?w1) \<longrightarrow> zs = migrated tr (left (spend 1 (faults ?w1))) ?xs 0"
      unfolding body_def by blast
    show ?thesis
    proof (cases "enough (Suc (cost tr ?s)) ?f1")
      case False
      let ?w' = "(st w ((heap w)(?a \<mapsto> zs)) None)\<lparr>allocs := ?b\<rparr>"
      have "Deallocate ?b (st ?w1 (?H1(?a \<mapsto> zs)) None) = ?w'"
        using ab fresh
        by (subst Deallocate_eq[where b = "replicate m None" and H = "?H1(?a \<mapsto> zs)"])
           (auto simp: fun_eq_iff)
      moreover have "spend 1 (spend 1 ?f) = spend 2 ?f"
        by (simp add: spend_def numeral_2_eq_2 split: option.splits)
      ultimately show ?thesis
        using False e1 E A zs c(3) full
        by (intro exI[of _ ?w'] exI[of _ zs])
           (simp add: RawMemory_dtor_def numeral_2_eq_2 enough_Suc[of "Suc 0"])
    next
      case e2: True
      let ?f2 = "spend (Suc (cost tr ?s)) ?f1"
      let ?ys = "packed (take p c @ x # drop p c) m"
      let ?H2 = "?H1(?a \<mapsto> replicate ?s None, ?b \<mapsto> ?ys)"
      let ?w' = "(st w (release ?a ((heap w)(?b \<mapsto> ?ys))) ?f2)\<lparr>allocs := ?b\<rparr>"
      have R: "Deallocate ?a (st ?w1 ?H2 ?f2) = ?w'"
      proof (cases "?a = 0")
        case True
        then have "?s = 0" using c(4) by simp
        then show ?thesis using True wf_heapD(1)[OF wf] ab
          by (auto simp: release_def fun_eq_iff)
      next
        case False
        then show ?thesis using ab
          by (subst Deallocate_eq[where b = "replicate ?s None" and H = ?H2])
             (auto simp: release_def fun_eq_iff)
      qed
      show ?thesis
        using e1 e2 E A zs(1) R c(3) full
        by (intro exI[of _ ?w'] exI[of _ ?xs])
           (simp add: RawMemory_dtor_def GetAddress_def spend_add[symmetric])
    qed
  qed
  then show ?thesis unfolding G .
qed

lemma move_new_same_eq:
  "heap w a = Some xs \<Longrightarrow> si < length xs \<Longrightarrow> xs ! si \<noteq> None \<Longrightarrow>
   i < length xs \<Longrightarrow> xs ! i = None \<Longrightarrow>
   move_new tr (a, i) (a, si) w =
     (if enough (cost tr 1) (faults w)
      then (Done, st w ((heap w)(a \<mapsto> xs[si := mf tr (xs ! si), i := xs ! si]))
                     (spend (cost tr 1) (faults w)))
      else (Thrown, st w (heap w) None))"
  by (auto simp: move_new_def slot_def fallible_eq construct_at_def raw_def put_def cost_def mf_def st_def
      nth_list_update)

lemma packed_snoc:
  "length c < cap \<Longrightarrow> (packed c cap)[length c := Some x] = packed (c @ [x]) cap"
  by (intro nth_equalityI) (auto simp: packed_def nth_append nth_list_update)

lemma inplace_block:
  assumes "p < length c" "length c < cap"
  shows "(shift_right tr ((packed c cap)[length c - 1 := mf tr (packed c cap ! (length c - 1)),
                                        length c := packed c cap ! (length c - 1)])
            p (length c - 1 - p))[p := Some x]
         = packed (take p c @ x # drop p c) cap"
proof (rule nth_equalityI)
  show "length ((shift_right tr ((packed c cap)[length c - 1 := mf tr (packed c cap ! (length c - 1)),
                                        length c := packed c cap ! (length c - 1)])
            p (length c - 1 - p))[p := Some x]) = length (packed (take p c @ x # drop p c) cap)"
    using assms by simp
  fix j assume "j < length ((shift_right tr ((packed c cap)[length c - 1 := mf tr (packed c cap ! (length c - 1)),
                                        length c := packed c cap ! (length c - 1)])
            p (length c - 1 - p))[p := Some x])"
  then have j: "j < cap" using assms by simp
  show "(shift_right tr ((packed c cap)[length c - 1 := mf tr (packed c cap ! (length c - 1)),
                                        length c := packed c cap ! (length c - 1)])
            p (length c - 1 - p))[p := Some x] ! j = packed (take p c @ x # drop p c) cap ! j"
    using assms j
    by (auto simp: shift_right_def nth_list_update nth_packed nth_append nth_Cons' min_def)
qed

lemma shift_right_live:
  assumes "\<forall>j\<le>m. xs ! (q + j) \<noteq> None" "q + m < length xs" "j < length xs"
  shows "(shift_right tr xs q m ! j = None) = (xs ! j = None)"
proof -
  have *: "xs ! i \<noteq> None" if "q \<le> i" "i \<le> q + m" for i
    using assms(1)[rule_format, of "i - q"] that by simp
  show ?thesis
  proof (cases "q < j \<and> j \<le> q + m")
    case True
    then have "xs ! (j - 1) \<noteq> None" "xs ! j \<noteq> None"
      using *[of "j - 1"] *[of j] by auto
    then show ?thesis using True assms(3) by (auto simp: shift_right_def)
  next
    case False
    then show ?thesis using assms(3) by (auto simp: shift_right_def)
  qed
qed

lemma Emplace_room:
  fixes tr :: "'a traits" and w :: "'a world"
  assumes v: "valid w v" and room: "size_m v < Capacity v" and p: "p \<le> size_m v"
  defines "k \<equiv> (if p = size_m v then 1 else Suc (cost tr 1) + (size_m v - 1 - p) + 1)"
  shows "\<exists>w'. Emplace tr (GetAddress v, p) x v w =
      (if enough k (faults w)
       then (Done, (GetAddress v, p), v\<lparr>size_m := Suc (size_m v)\<rparr>,
             st w ((heap w)(GetAddress v \<mapsto>
                     packed (take p (contents w v) @ x # drop p (contents w v)) (Capacity v)))
                  (spend k (faults w)))
       else (Thrown, (GetAddress v, p), v, w'))"
proof -
  let ?a = "GetAddress v" and ?s = "size_m v" and ?cap = "Capacity v"
  let ?f = "faults w" and ?H = "heap w"
  from v obtain c where c: "heap w ?a = Some (packed c ?cap)" "length c = ?s"
      "contents w v = c"
    by (auto elim: validD)
  let ?xs = "packed c ?cap"
  show ?thesis
  proof (cases "p = ?s")
    case True
    have "emplace_new (?a, ?s) x w =
       (if enough 1 ?f then (Done, st w (?H(?a \<mapsto> packed (c @ [x]) ?cap)) (spend 1 ?f))
        else (Thrown, st w ?H None))"
      using c room packed_snoc[of c ?cap x]
      by (subst emplace_new_eq[where ys = ?xs]) (auto simp: nth_packed)
    then show ?thesis
      using True c room
      by (intro exI[of _ "st w ?H None"]) (simp add: Emplace_def Let_def begin_it_def end_it_def k_def)
  next
    case False
    then have ps: "p < ?s" using p by simp
    let ?n = "?s - 1 - p"
    have sn: "?s = Suc (p + ?n)" using ps by simp
    let ?f1 = "spend 1 ?f"
    let ?w1 = "st w ?H ?f1"
    let ?xs1 = "?xs[?s - 1 := mf tr (?xs ! (?s - 1)), ?s := ?xs ! (?s - 1)]"
    let ?f2 = "spend (cost tr 1) ?f1"
    let ?w2 = "st w (?H(?a \<mapsto> ?xs1)) ?f2"
    have F0: "fallible w = (if enough 1 ?f then (False, ?w1) else (True, st w ?H None))"
      by (rule fallible_eq)
    have MN: "move_new tr (?a, ?s) (?a, ?s - 1) ?w1 =
        (if enough (cost tr 1) ?f1 then (Done, ?w2) else (Thrown, st w ?H None))"
      using c ps room
      by (subst move_new_same_eq[where xs = ?xs]) (auto simp: nth_packed)
    have live1: "\<forall>j\<le>?n. ?xs1 ! (p + j) \<noteq> None"
      using c ps room by (auto simp: nth_list_update nth_packed)
    have len1: "p + ?n < length ?xs1" using c ps room by simp
    let ?f3 = "spend ?n ?f2"
    let ?zs = "shift_right tr ?xs1 (p + ?n - left ?f2) (left ?f2)"
    have MB: "move_backward_n tr (?a, p) ?n (?a, Suc (p + ?n)) ?w2 =
        (if enough ?n ?f2 then (Done, st w (?H(?a \<mapsto> shift_right tr ?xs1 p ?n)) ?f3)
         else (Thrown, st w (?H(?a \<mapsto> ?zs)) None))"
      using live1 len1
      by (subst move_backward_n_eq[where xs = ?xs1]) auto
    have U: "\<exists>w'. destroy_at (?a, ?s) (st w (?H(?a \<mapsto> ?zs)) None) = (Done, w')"
      if "\<not> enough ?n ?f2"
    proof -
      let ?m = "left ?f2" and ?q = "p + ?n - left ?f2"
      have m: "?m < ?n" using that by (rule left_less)
      have "\<forall>j\<le>?m. ?xs1 ! (?q + j) \<noteq> None"
      proof (intro allI impI)
        fix j assume "j \<le> ?m"
        then have "?q + j = p + (?n - ?m + j)" "?n - ?m + j \<le> ?n" using m by auto
        then show "?xs1 ! (?q + j) \<noteq> None" using live1 by metis
      qed
      moreover have "?q + ?m < length ?xs1" using m len1 by simp
      moreover have "?s < length ?xs1" using c room by simp
      ultimately have "(?zs ! ?s = None) = (?xs1 ! ?s = None)"
        by (rule shift_right_live)
      moreover have "?xs1 ! ?s \<noteq> None" using c ps room by (simp add: nth_packed)
      ultimately have "?zs ! ?s \<noteq> None" by simp
      then show ?thesis
        using c room by (subst destroy_at_st[where ys = ?zs]) auto
    qed
    have AV: "assign_value (?a, p) x (st w (?H(?a \<mapsto> shift_right tr ?xs1 p ?n)) ?f3) =
        (if enough 1 ?f3
         then (Done, st w (?H(?a \<mapsto> packed (take p c @ x # drop p c) ?cap)) (spend 1 ?f3))
         else (Thrown, st w (?H(?a \<mapsto> shift_right tr ?xs1 p ?n)) None))"
    proof -
      have "(shift_right tr ?xs1 p ?n ! p = None) = (?xs1 ! p = None)"
        using live1 len1 by (intro shift_right_live) auto
      moreover have "?xs1 ! p \<noteq> None" using live1 by (metis add.right_neutral le0)
      ultimately have "shift_right tr ?xs1 p ?n ! p \<noteq> None" by simp
      moreover have "(shift_right tr ?xs1 p ?n)[p := Some x] = packed (take p c @ x # drop p c) ?cap"
        using inplace_block[of p c ?cap tr x] ps room c(2) by simp
      ultimately show ?thesis
        using c ps room
        by (subst assign_value_eq[where ys = "shift_right tr ?xs1 p ?n"]) auto
    qed
    have K: "enough k ?f \<longleftrightarrow> enough 1 ?f \<and> enough (cost tr 1) ?f1 \<and> enough ?n ?f2 \<and> enough 1 ?f3"
      using False by (auto simp: k_def enough_def spend_def split: option.splits)
    have Kf: "spend k ?f = spend 1 ?f3"
      using False by (auto simp: k_def spend_def split: option.splits)
    have pos: "(?a, p) \<noteq> end_it v" using False by (simp add: end_it_def)
    have unfold: "Emplace tr (?a, p) x v w =
        (case fallible w of
           (True, w1) \<Rightarrow> (Thrown, (?a, p), v, w1)
         | (False, w1) \<Rightarrow>
             (case andthen (move_new tr (?a, ?s) (?a, ?s - 1))
                     (andthen
                        (on_throw (move_backward_n tr (?a, p) ?n (?a, Suc (p + ?n)))
                           (destroy_at (?a, ?s)))
                        (assign_value (?a, p) x)) w1 of
                (Done, w2) \<Rightarrow> (Done, (?a, p), v\<lparr>size_m := Suc ?s\<rparr>, w2)
              | (r, w2) \<Rightarrow> (r, (?a, p), v, w2)))"
      unfolding Emplace_def Let_def using p room pos sn
      by (simp add: begin_it_def end_it_def move_backward_def
          cong: prod.case_cong bool.case_cong outcome.case_cong)
    show ?thesis
    proof (cases "enough k ?f")
      case True
      then show ?thesis
        unfolding unfold using F0 MN MB AV K Kf c(3)
        by (simp add: andthen_def on_throw_def)
    next
      case nk: False
      have "\<exists>w'. Emplace tr (?a, p) x v w = (Thrown, (?a, p), v, w')"
      proof (cases "enough 1 ?f")
        case False
        then show ?thesis unfolding unfold using F0 by simp
      next
        case e1: True
        show ?thesis
        proof (cases "enough (cost tr 1) ?f1")
          case False
          then show ?thesis unfolding unfold using F0 MN e1 by (simp add: andthen_def)
        next
          case e2: True
          show ?thesis
          proof (cases "enough ?n ?f2")
            case False
            from U[OF False] obtain w' where
              "destroy_at (?a, ?s) (st w (?H(?a \<mapsto> ?zs)) None) = (Done, w')" ..
            then show ?thesis
              unfolding unfold using F0 MN MB e1 e2 False by (simp add: andthen_def on_throw_def)
          next
            case e3: True
            then have "\<not> enough 1 ?f3" using nk K e1 e2 by simp
            then show ?thesis
              unfolding unfold using F0 MN MB AV e1 e2 e3 by (simp add: andthen_def on_throw_def)
          qed
        qed
      qed
      then show ?thesis using nk by auto
    qed
  qed
qed

lemma erase_block:
  assumes "p < length c" "length c \<le> cap"
  shows "(shift_left tr (packed c cap) p (length c - 1 - p))[length c - 1 := None]
         = packed (take p c @ drop (Suc p) c) cap"
proof (rule nth_equalityI)
  show "length ((shift_left tr (packed c cap) p (length c - 1 - p))[length c - 1 := None])
      = length (packed (take p c @ drop (Suc p) c) cap)"
    using assms by simp
  fix j assume "j < length ((shift_left tr (packed c cap) p (length c - 1 - p))[length c - 1 := None])"
  then have j: "j < cap" using assms by simp
  show "(shift_left tr (packed c cap) p (length c - 1 - p))[length c - 1 := None] ! j
      = packed (take p c @ drop (Suc p) c) cap ! j"
    using assms j
    by (auto simp: shift_left_def nth_list_update nth_packed nth_append min_def)
qed

lemma shift_left_last_live:
  assumes "\<forall>j\<le>n. xs ! (p + j) \<noteq> None" "p + n < length xs"
  shows "shift_left tr xs p n ! (p + n) \<noteq> None"
  using assms by (auto simp: shift_left_def)

lemma Erase_eq:
  fixes tr :: "'a traits" and w :: "'a world"
  assumes v: "valid w v" and p: "p < size_m v"
  defines "n \<equiv> size_m v - 1 - p"
  shows "\<exists>w'. Erase tr (GetAddress v, p) v w =
      (if enough n (faults w)
       then (Done, (GetAddress v, p), v\<lparr>size_m := size_m v - 1\<rparr>,
             st w ((heap w)(GetAddress v \<mapsto>
                     packed (take p (contents w v) @ drop (Suc p) (contents w v)) (Capacity v)))
                  (spend n (faults w)))
       else (Thrown, (GetAddress v, p), v, w'))"
proof -
  let ?a = "GetAddress v" and ?s = "size_m v" and ?cap = "Capacity v"
  let ?f = "faults w" and ?H = "heap w"
  from v obtain c where c: "heap w ?a = Some (packed c ?cap)" "length c = ?s" "?s \<le> ?cap"
      "contents w v = c"
    by (auto elim: validD)
  let ?xs = "packed c ?cap"
  have sn: "?s - 1 = p + n" "?s = Suc (p + n)" using p by (auto simp: n_def)
  have live: "\<forall>j\<le>n. ?xs ! (p + j) \<noteq> None" and len: "p + n < length ?xs"
    using c p sn by (auto simp: nth_packed)
  let ?ys = "shift_left tr ?xs p n"
  let ?w1 = "st w (?H(?a \<mapsto> ?ys)) (spend n ?f)"
  have MV: "move_n tr (?a, Suc p) n (?a, p) w =
      (if enough n ?f then (Done, ?w1)
       else (Thrown, st w (?H(?a \<mapsto> shift_left tr ?xs p (left ?f))) None))"
    using c(1) len live by (rule move_n_eq)
  have step1: "(if (?a, p) \<noteq> (?a, ?s - 1) then move_range tr (?a, p + 1) (end_it v) (?a, p) w else (Done, w))
      = move_n tr (?a, Suc p) n (?a, p) w"
    by (auto simp: move_range_def end_it_def n_def)
  have PB: "PopBack v ?w1 = (Done, v\<lparr>size_m := ?s - 1\<rparr>,
      st w (?H(?a \<mapsto> packed (take p c @ drop (Suc p) c) ?cap)) (spend n ?f))"
  proof -
    have "?ys ! (p + n) \<noteq> None" using live len by (rule shift_left_last_live)
    moreover have "?ys[p + n := None] = packed (take p c @ drop (Suc p) c) ?cap"
    proof -
      have e: "length c - Suc p = n" "length c - Suc 0 = p + n"
        using c(2) sn(1) by (simp_all add: n_def)
      have "(shift_left tr ?xs p (length c - 1 - p))[length c - 1 := None]
          = packed (take p c @ drop (Suc p) c) ?cap"
        using p c(2,3) by (intro erase_block) auto
      then show ?thesis by (simp add: e)
    qed
    ultimately have "destroy_at (?a, p + n) ?w1 =
        (Done, st w (?H(?a \<mapsto> packed (take p c @ drop (Suc p) c) ?cap)) (spend n ?f))"
      using len by (subst destroy_at_st[where ys = ?ys]) auto
    then show ?thesis
      using p sn by (simp add: PopBack_def commit_def end_it_def)
  qed
  have unfold: "Erase tr (?a, p) v w =
      (case move_n tr (?a, Suc p) n (?a, p) w of
         (Done, w1) \<Rightarrow> (case PopBack v w1 of (r, v1, w2) \<Rightarrow> (r, (GetAddress v1, p), v1, w2))
       | (r, w1) \<Rightarrow> (r, (?a, p), v, w1))"
    unfolding Erase_def Let_def step1[symmetric] using p
    by (simp add: begin_it_def cong: prod.case_cong outcome.case_cong)
  show ?thesis
    unfolding unfold using MV PB c(4)
    by (auto simp: GetAddress_def)
qed

lemma shrink_block:
  "n \<le> length c \<Longrightarrow> length c \<le> cap \<Longrightarrow>
   overlay (packed c cap) n (replicate (length c - n) None) = packed (take n c) cap"
  by (intro nth_equalityI) (auto simp: overlay_def packed_def nth_append min_def)

lemma extend_block:
  "length c \<le> n \<Longrightarrow> n \<le> cap \<Longrightarrow>
   overlay (packed c cap) (length c) (replicate (n - length c) (Some d)) = packed (c @ replicate (n - length c) d) cap"
  by (intro nth_equalityI) (auto simp: overlay_def packed_def nth_append min_def)

lemma release_upd: "b \<noteq> a \<Longrightarrow> (release a H)(b := y) = release a (H(b := y))"
  by (auto simp: release_def fun_eq_iff)

lemma release_other: "b \<noteq> a \<Longrightarrow> release a H b = H b"
  by (simp add: release_def)

lemma Resize_shrink:
  assumes v: "valid w v" and n: "n < size_m v"
  shows "Resize tr n v w = (Done, v\<lparr>size_m := n\<rparr>,
      st w ((heap w)(GetAddress v \<mapsto> packed (take n (contents w v)) (Capacity v))) (faults w))"
proof -
  let ?a = "GetAddress v" and ?s = "size_m v" and ?cap = "Capacity v"
  from v obtain c where c: "heap w ?a = Some (packed c ?cap)" "length c = ?s" "?s \<le> ?cap"
      "contents w v = c"
    by (auto elim: validD)
  have "destroy_n (?a, n) (?s - n) w =
      (Done, st w ((heap w)(?a \<mapsto> packed (take n c) ?cap)) (faults w))"
    using c n shrink_block[of n c ?cap]
    by (subst destroy_n_eq[where ys = "packed c ?cap"]) (auto simp: nth_packed)
  then show ?thesis using n c(4) by (simp add: Resize_def commit_def)
qed

lemma Resize_room:
  assumes v: "valid w v" and n: "size_m v \<le> n" "n \<le> Capacity v"
  shows "Resize tr n v w =
      (if enough (n - size_m v) (faults w)
       then (Done, v\<lparr>size_m := n\<rparr>,
             st w ((heap w)(GetAddress v \<mapsto>
                     packed (contents w v @ replicate (n - size_m v) (value_init tr)) (Capacity v)))
                  (spend (n - size_m v) (faults w)))
       else (Thrown, v, st w (heap w) None))"
proof -
  let ?a = "GetAddress v" and ?s = "size_m v" and ?cap = "Capacity v"
  from v obtain c where c: "heap w ?a = Some (packed c ?cap)" "length c = ?s" "?s \<le> ?cap"
      "contents w v = c"
    by (auto elim: validD)
  have "uninitialized_value_construct_n tr (?a, ?s) (n - ?s) w =
      (if enough (n - ?s) (faults w)
       then (Done, st w ((heap w)(?a \<mapsto> packed (c @ replicate (n - ?s) (value_init tr)) ?cap))
                      (spend (n - ?s) (faults w)))
       else (Thrown, st w (heap w) None))"
    using c n extend_block[of c n ?cap "value_init tr"]
    by (subst uninitialized_value_construct_n_eq[where ys = "packed c ?cap"]) (auto simp: nth_packed)
  then show ?thesis using n c(4) by (simp add: Resize_def Reserve_def commit_def)
qed

lemma Resize_realloc:
  fixes tr :: "'a traits" and w :: "'a world"
  assumes wf: "wf_heap w" and v: "valid w v" and n: "Capacity v < n" and fit: "fits n w"
  defines "E \<equiv> enough (Suc (cost tr (size_m v)) + (n - size_m v)) (faults w)"
  shows "\<exists>v' w'. Resize tr n v w =
        (if E then (Done, \<lparr>data_m = \<lparr>buffer_m = Suc (allocs w), capacity_m = n\<rparr>, size_m = n\<rparr>, w')
         else (Thrown, v', w')) \<and>
      size_m v' = size_m v \<and>
      (E \<longrightarrow> heap w' = release (GetAddress v)
                 ((heap w)(Suc (allocs w) \<mapsto>
                    packed (contents w v @ replicate (n - size_m v) (value_init tr)) n)) \<and>
             allocs w' = Suc (allocs w) \<and>
             faults w' = spend (Suc (cost tr (size_m v)) + (n - size_m v)) (faults w)) \<and>
      leaked w' = leaked w"
proof -
  let ?a = "GetAddress v" and ?b = "Suc (allocs w)" and ?s = "size_m v" and ?cap = "Capacity v"
  let ?f = "faults w" and ?k = "Suc (cost tr ?s)"
  from v obtain c where c: "heap w ?a = Some (packed c ?cap)" "length c = ?s" "?s \<le> ?cap"
      "contents w v = c"
    by (auto elim: validD)
  have ab: "?a \<noteq> ?b" using wf_heapD[OF wf] c(1) by auto
  let ?v1 = "v\<lparr>data_m := \<lparr>buffer_m = ?b, capacity_m = n\<rparr>\<rparr>"
  from Reserve_grow[OF wf v n fit, of tr] obtain w1 where w1:
    "Reserve tr n v w = (if enough ?k ?f then (Done, ?v1, w1) else (Thrown, v, w1))"
    "heap w1 = (if enough ?k ?f then release ?a ((heap w)(?b \<mapsto> packed (contents w v) n))
       else (heap w)(?a \<mapsto> migrated tr (left (spend 1 ?f)) (packed (contents w v) ?cap) 0))"
    "leaked w1 = leaked w" "allocs w1 = (if enough 1 ?f then ?b else allocs w)"
    "faults w1 = (if enough ?k ?f then spend ?k ?f else None)"
    by blast
  have E: "E \<longleftrightarrow> enough ?k ?f \<and> enough (n - ?s) (spend ?k ?f)"
    unfolding E_def by (rule enough_add)
  have ns: "\<not> n < ?s" using c(3) n by simp
  show ?thesis
  proof (cases "enough ?k ?f")
    case False
    then show ?thesis using w1 ns E
      by (intro exI[of _ v] exI[of _ w1]) (simp add: Resize_def)
  next
    case e1: True
    then have e0: "enough 1 ?f" by (simp add: enough_Suc[of "cost tr ?s"])
    have hb: "heap w1 ?b = Some (packed c n)"
      using w1(2) e1 ab c(4) by (simp add: release_other)
    have V: "uninitialized_value_construct_n tr (?b, ?s) (n - ?s) w1 =
      (if enough (n - ?s) (faults w1)
       then (Done, st w1 ((heap w1)(?b \<mapsto> packed (c @ replicate (n - ?s) (value_init tr)) n))
                      (spend (n - ?s) (faults w1)))
       else (Thrown, st w1 (heap w1) None))"
      using c n hb extend_block[of c n n "value_init tr"]
      by (subst uninitialized_value_construct_n_eq[where ys = "packed c n"]) (auto simp: nth_packed)
    have R: "Resize tr n v w = commit ?v1 (?v1\<lparr>size_m := n\<rparr>)
        (uninitialized_value_construct_n tr (?b, ?s) (n - ?s) w1)"
      using w1(1) e1 ns by (simp add: Resize_def GetAddress_def)
    show ?thesis
    proof (cases "enough (n - ?s) (spend ?k ?f)")
      case False
      then show ?thesis using R V w1 e1 E
        by (intro exI[of _ ?v1] exI[of _ "st w1 (heap w1) None"]) (simp add: commit_def)
    next
      case True
      let ?w' = "st w1 ((heap w1)(?b \<mapsto> packed (c @ replicate (n - ?s) (value_init tr)) n))
                      (spend (n - ?s) (faults w1))"
      have "heap ?w' = release ?a ((heap w)(?b \<mapsto> packed (c @ replicate (n - ?s) (value_init tr)) n))"
        using w1(2) e1 ab by (simp add: release_upd)
      then show ?thesis using R V w1 e1 e0 E True c(4)
        by (intro exI[of _ ?v1] exI[of _ ?w']) (simp add: commit_def spend_add[symmetric])
    qed
  qed
qed

lemma valid_cong: "heap w' (GetAddress v) = heap w (GetAddress v) \<Longrightarrow> valid w' v = valid w v"
  by (simp add: valid_def)

lemma contents_cong: "heap w' (GetAddress v) = heap w (GetAddress v) \<Longrightarrow> contents w' v = contents w v"
  by (simp add: contents_def)

lemma destroy_all_packed:
  "length c \<le> cap \<Longrightarrow> overlay (packed c cap) 0 (replicate (length c) None) = replicate cap None"
  by (intro nth_equalityI) (auto simp: overlay_def packed_def nth_append)

lemma Vector_dtor_eq:
  assumes wf: "wf_heap w" and v: "valid w v"
  shows "\<exists>w'. Vector_dtor v w = (Done, w') \<and> heap w' = release (GetAddress v) (heap w) \<and>
      leaked w' = leaked w \<and> allocs w' = allocs w \<and> faults w' = faults w"
proof -
  let ?a = "GetAddress v" and ?s = "size_m v" and ?cap = "Capacity v"
  from v obtain c where c: "heap w ?a = Some (packed c ?cap)" "length c = ?s" "?s \<le> ?cap"
      "(?a = 0) = (?cap = 0)"
    by (auto elim: validD)
  let ?w1 = "st w ((heap w)(?a \<mapsto> replicate ?cap None)) (faults w)"
  have D: "destroy_n (?a, 0) ?s w = (Done, ?w1)"
    using c destroy_all_packed[of c ?cap]
    by (subst destroy_n_eq[where ys = "packed c ?cap"]) (auto simp: nth_packed)
  show ?thesis
  proof (cases "?a = 0")
    case True
    then have "?w1 = w" using c wf_heapD(1)[OF wf] by (auto simp: st_id fun_eq_iff)
    then show ?thesis using D True
      by (intro exI[of _ w]) (simp add: Vector_dtor_def RawMemory_dtor_def GetAddress_def release_def)
  next
    case False
    let ?w' = "(st w (release ?a (heap w)) (faults w))"
    have "Deallocate ?a ?w1 = ?w'"
      using False
      by (subst Deallocate_eq[where b = "replicate ?cap None" and H = "(heap w)(?a \<mapsto> replicate ?cap None)"])
        (auto simp: release_def)
    then show ?thesis using D
      by (intro exI[of _ ?w']) (simp add: Vector_dtor_def RawMemory_dtor_def GetAddress_def)
  qed
qed

lemma copy_fresh_block:
  "length c \<le> cap \<Longrightarrow>
   overlay (replicate (length c) None) 0 (take (length c) (drop 0 (packed c cap))) = packed c (length c)"
  by (simp add: overlay_def packed_def)

lemma Vector_copy_ctor_eq:
  fixes w :: "'a world"
  assumes wf: "wf_heap w" and v: "valid w other" and pos: "size_m other \<noteq> 0"
    and fit: "fits (size_m other) w"
  shows "\<exists>w'. Vector_copy_ctor other w =
        (if enough (Suc (size_m other)) (faults w)
         then (Done, \<lparr>data_m = \<lparr>buffer_m = Suc (allocs w), capacity_m = size_m other\<rparr>,
                      size_m = size_m other\<rparr>, w')
         else (Thrown, Vector_default, w')) \<and>
      heap w' =
        (if enough (Suc (size_m other)) (faults w)
         then (heap w)(Suc (allocs w) \<mapsto> packed (contents w other) (size_m other))
         else heap w) \<and>
      leaked w' = leaked w \<and> allocs w' = (if enough 1 (faults w) then Suc (allocs w) else allocs w) \<and>
      faults w' = (if enough (Suc (size_m other)) (faults w) then spend (Suc (size_m other)) (faults w) else None)"
proof -
  let ?a = "GetAddress other" and ?b = "Suc (allocs w)" and ?s = "size_m other" and ?cap = "Capacity other"
  let ?f = "faults w"
  from v obtain c where c: "heap w ?a = Some (packed c ?cap)" "length c = ?s" "?s \<le> ?cap"
      "contents w other = c"
    by (auto elim: validD)
  have ab: "?a \<noteq> ?b" and fresh: "heap w ?b = None"
    using wf_heapD[OF wf] c(1) by auto
  show ?thesis
  proof (cases "enough 1 ?f")
    case False
    then have "Vector_copy_ctor other w = (Thrown, Vector_default, st w (heap w) None)"
      using pos fit by (simp add: Vector_copy_ctor_def RawMemory_ctor_eq)
    then show ?thesis using False
      by (intro exI[of _ "st w (heap w) None"]) (simp add: enough_Suc[of ?s])
  next
    case e1: True
    let ?f1 = "spend 1 ?f"
    let ?H1 = "(heap w)(?b \<mapsto> replicate ?s None)"
    let ?w1 = "(st w ?H1 ?f1)\<lparr>allocs := ?b\<rparr>"
    let ?nd = "\<lparr>buffer_m = ?b, capacity_m = ?s\<rparr>"
    have A: "RawMemory_ctor ?s w = (Some ?nd, ?w1)"
      using e1 pos fit by (simp add: RawMemory_ctor_eq)
    have M: "uninitialized_copy_n (?a, 0) ?s (?b, 0) ?w1 =
       (if enough ?s ?f1 then (Done, st ?w1 (?H1(?b \<mapsto> packed c ?s)) (spend ?s ?f1))
        else (Thrown, st ?w1 ?H1 None))"
      using c ab copy_fresh_block[of c ?cap]
      by (subst uninitialized_copy_n_eq[where xs = "packed c ?cap" and ys = "replicate ?s None"])
         (auto simp: nth_packed)
    show ?thesis
    proof (cases "enough ?s ?f1")
      case False
      let ?w' = "(st w (heap w) None)\<lparr>allocs := ?b\<rparr>"
      have "Deallocate ?b (st ?w1 ?H1 None) = ?w'"
        using fresh
        by (subst Deallocate_eq[where b = "replicate ?s None" and H = "?H1"]) (auto simp: fun_eq_iff)
      then show ?thesis using A M False e1
        by (intro exI[of _ ?w'])
           (simp add: Vector_copy_ctor_def RawMemory_dtor_def enough_Suc[of ?s])
    next
      case True
      let ?w' = "(st w ((heap w)(?b \<mapsto> packed c ?s)) (spend ?s ?f1))\<lparr>allocs := ?b\<rparr>"
      show ?thesis using A M True e1 c(4)
        by (intro exI[of _ ?w'])
           (simp add: Vector_copy_ctor_def enough_Suc[of ?s] spend_Suc[of ?s])
    qed
  qed
qed

lemma Swap_eq [simp]: "Swap a b = (b, a)"
  by (cases a, cases b) (simp add: Swap_def)

lemma wf_heap_alloc:
  assumes "wf_heap w" "heap w' = (heap w)(Suc (allocs w) \<mapsto> X)" "allocs w' = Suc (allocs w)"
  shows "wf_heap w'"
  using assms by (auto simp: wf_heap_def split: if_splits)

lemma assign_shrink_block:
  assumes "length rc \<le> length c" "length c \<le> cap" "length rc \<le> rcap"
  shows "overlay (overlay (packed c cap) 0 (take (length rc) (drop 0 (packed rc rcap)))) (length rc)
           (replicate (length c - length rc) None) = packed rc cap"
  using assms
  by (intro nth_equalityI) (auto simp: overlay_def packed_def nth_append min_def)

lemma assign_grow_block:
  assumes "length c \<le> length rc" "length rc \<le> cap" "length rc \<le> rcap"
  shows "overlay (overlay (packed c cap) 0 (take (length c) (drop 0 (packed rc rcap)))) (length c)
           (take (length rc - length c) (drop (length c) (packed rc rcap))) = packed rc cap"
  using assms
  by (intro nth_equalityI) (auto simp: overlay_def packed_def nth_append min_def)

lemma assign_partial_shape:
  assumes "j \<le> length c" "j \<le> length rc" "length c \<le> cap" "length rc \<le> rcap"
  shows "shape_eq (overlay (packed c cap) 0 (take j (drop 0 (packed rc rcap)))) (packed c cap)"
  using assms
  by (auto simp: shape_eq_def overlay_def packed_def nth_append min_def)

lemma copy_assign_realloc:
  fixes w :: "'a world"
  assumes wf: "wf_heap w" and vt: "valid w this" and vr: "valid w rhs"
    and big: "Capacity this < size_m rhs" and fit: "fits (size_m rhs) w"
  defines "E \<equiv> enough (Suc (size_m rhs)) (faults w)"
  shows "\<exists>w'. copy_assign_body this rhs w =
        (if E then (Done, \<lparr>data_m = \<lparr>buffer_m = Suc (allocs w), capacity_m = size_m rhs\<rparr>,
                          size_m = size_m rhs\<rparr>, w')
         else (Thrown, this, w')) \<and>
      heap w' =
        (if E then release (GetAddress this)
                     ((heap w)(Suc (allocs w) \<mapsto> packed (contents w rhs) (size_m rhs)))
         else heap w) \<and>
      leaked w' = leaked w \<and> allocs w' = (if enough 1 (faults w) then Suc (allocs w) else allocs w) \<and>
      faults w' = (if E then spend (Suc (size_m rhs)) (faults w) else None)"
proof -
  let ?a = "GetAddress this" and ?b = "Suc (allocs w)" and ?rs = "size_m rhs"
  have pos: "?rs \<noteq> 0" using big by simp
  from Vector_copy_ctor_eq[OF wf vr pos fit] obtain w1 where w1:
    "Vector_copy_ctor rhs w =
        (if E then (Done, \<lparr>data_m = \<lparr>buffer_m = ?b, capacity_m = ?rs\<rparr>, size_m = ?rs\<rparr>, w1)
         else (Thrown, Vector_default, w1))"
    "heap w1 = (if E then (heap w)(?b \<mapsto> packed (contents w rhs) ?rs) else heap w)"
    "leaked w1 = leaked w" "allocs w1 = (if enough 1 (faults w) then ?b else allocs w)"
    "faults w1 = (if E then spend (Suc ?rs) (faults w) else None)"
    unfolding E_def by blast
  show ?thesis
  proof (cases E)
    case False
    then show ?thesis using w1 big
      by (intro exI[of _ w1]) (simp add: copy_assign_body_def)
  next
    case True
    then have e1: "enough 1 (faults w)" by (simp add: E_def enough_Suc[of ?rs])
    from vt obtain b0 where "heap w ?a = Some b0" by (auto elim: validD)
    then have ab: "?a \<noteq> ?b" using wf_heapD[OF wf] by auto
    have wf1: "wf_heap w1" using wf w1(2,4) True e1 by (intro wf_heap_alloc[OF wf]) auto
    have "valid w1 this" using vt w1(2) True ab by (simp add: valid_cong[of w1 this w])
    from Vector_dtor_eq[OF wf1 this] obtain w2 where w2:
      "Vector_dtor this w1 = (Done, w2)" "heap w2 = release ?a (heap w1)"
      "leaked w2 = leaked w1" "allocs w2 = allocs w1" "faults w2 = faults w1"
      by blast
    show ?thesis using w1 w2 True e1 big
      by (intro exI[of _ w2]) (simp add: copy_assign_body_def)
  qed
qed

lemma copy_assign_inplace:
  fixes w :: "'a world"
  assumes vt: "valid w this" and vr: "valid w rhs" and fits: "size_m rhs \<le> Capacity this"
    and disj: "GetAddress this \<noteq> GetAddress rhs \<or> GetAddress this = 0"
  shows "\<exists>zs. copy_assign_body this rhs w =
        (if enough (size_m rhs) (faults w)
         then (Done, this\<lparr>size_m := size_m rhs\<rparr>,
               st w ((heap w)(GetAddress this \<mapsto> packed (contents w rhs) (Capacity this)))
                    (spend (size_m rhs) (faults w)))
         else (Thrown, this, st w ((heap w)(GetAddress this \<mapsto> zs)) None)) \<and>
      shape_eq zs (packed (contents w this) (Capacity this))"
proof -
  let ?a = "GetAddress this" and ?ra = "GetAddress rhs" and ?s = "size_m this" and ?rs = "size_m rhs"
  let ?cap = "Capacity this" and ?rcap = "Capacity rhs" and ?f = "faults w" and ?H = "heap w"
  from vt obtain c where c: "heap w ?a = Some (packed c ?cap)" "length c = ?s" "?s \<le> ?cap"
      "contents w this = c" "(?a = 0) = (?cap = 0)"
    by (auto elim: validD)
  from vr obtain rc where rc: "heap w ?ra = Some (packed rc ?rcap)" "length rc = ?rs" "?rs \<le> ?rcap"
      "contents w rhs = rc"
    by (auto elim: validD)
  let ?xs = "packed c ?cap" and ?rxs = "packed rc ?rcap"
  have nb: "\<not> ?cap < ?rs" using fits by simp
  show ?thesis
  proof (cases "?a = 0")
    case True
    then have z: "?cap = 0" "?s = 0" "?rs = 0" "c = []" "rc = []" using c rc fits by auto
    have "st w (?H(?a \<mapsto> packed [] 0)) ?f = w"
      using c(1) z by (auto simp: st_id fun_eq_iff)
    moreover have "this\<lparr>size_m := 0\<rparr> = this" using z by simp
    ultimately show ?thesis
      using z c(4) rc(4)
      by (intro exI[of _ ?xs]) (simp add: copy_assign_body_def commit_def andthen_def)
  next
    case False
    then have ne: "?ra \<noteq> ?a" using disj by auto
    show ?thesis
    proof (cases "?rs < ?s")
      case True
      let ?ys1 = "overlay ?xs 0 (take ?rs (drop 0 ?rxs))"
      let ?zs = "overlay ?xs 0 (take (left ?f) (drop 0 ?rxs))"
      have A1: "assign_loop ?a ?ra 0 ?rs w =
         (if enough ?rs ?f then (Done, st w (?H(?a \<mapsto> ?ys1)) (spend ?rs ?f))
          else (Thrown, st w (?H(?a \<mapsto> ?zs)) None))"
        using c rc ne True
        by (subst assign_loop_eq[where xs = ?rxs and ys = ?xs]) (auto simp: nth_packed)
      have D: "destroy_n (?a, ?rs) (?s - ?rs) (st w (?H(?a \<mapsto> ?ys1)) (spend ?rs ?f)) =
          (Done, st w (?H(?a \<mapsto> packed rc ?cap)) (spend ?rs ?f))"
        using c rc True assign_shrink_block[of rc c ?cap ?rcap]
        by (subst destroy_n_eq[where ys = ?ys1])
           (auto simp: overlay_def nth_append min_def packed_def)
      have sh: "\<not> enough ?rs ?f \<Longrightarrow> shape_eq ?zs ?xs"
        using c rc True by (intro assign_partial_shape) (auto dest: left_less)
      show ?thesis
        using A1 D sh True nb c(4) rc(4)
        by (intro exI[of _ "if enough ?rs ?f then ?xs else ?zs"])
           (simp add: copy_assign_body_def commit_def andthen_def)
    next
      case False
      then have le: "?s \<le> ?rs" by simp
      let ?ys1 = "overlay ?xs 0 (take ?s (drop 0 ?rxs))"
      let ?zs = "overlay ?xs 0 (take (left ?f) (drop 0 ?rxs))"
      let ?f1 = "spend ?s ?f"
      have A1: "assign_loop ?a ?ra 0 ?s w =
         (if enough ?s ?f then (Done, st w (?H(?a \<mapsto> ?ys1)) ?f1)
          else (Thrown, st w (?H(?a \<mapsto> ?zs)) None))"
        using c rc ne le
        by (subst assign_loop_eq[where xs = ?rxs and ys = ?xs]) (auto simp: nth_packed)
      have U: "uninitialized_copy_n (?ra, ?s) (?rs - ?s) (?a, ?s) (st w (?H(?a \<mapsto> ?ys1)) ?f1) =
          (if enough (?rs - ?s) ?f1
           then (Done, st w (?H(?a \<mapsto> packed rc ?cap)) (spend (?rs - ?s) ?f1))
           else (Thrown, st w (?H(?a \<mapsto> ?ys1)) None))"
        using c rc ne le fits assign_grow_block[of c rc ?cap ?rcap]
        by (subst uninitialized_copy_n_eq[where xs = ?rxs and ys = ?ys1])
           (auto simp: overlay_def nth_append min_def packed_def)
      have E: "enough ?rs ?f \<longleftrightarrow> enough ?s ?f \<and> enough (?rs - ?s) ?f1"
        using le enough_add[of ?s "?rs - ?s" ?f] by simp
      have Ef: "spend ?rs ?f = spend (?rs - ?s) ?f1"
        using le spend_add[of ?s "?rs - ?s" ?f] by simp
      have sh1: "\<not> enough ?s ?f \<Longrightarrow> shape_eq ?zs ?xs"
        using c rc le by (intro assign_partial_shape) (auto dest: left_less)
      have sh2: "shape_eq ?ys1 ?xs"
        using c rc le by (intro assign_partial_shape) auto
      show ?thesis
        using A1 U sh1 sh2 False nb c(4) rc(4) E Ef
        by (intro exI[of _ "if enough ?s ?f then ?ys1 else ?zs"])
           (simp add: copy_assign_body_def commit_def andthen_def)
    qed
  qed
qed

lemma after_realloc:
  assumes wf: "wf_heap w" and hv: "heap w a \<noteq> None"
    and h: "heap w' = release a ((heap w)(Suc (allocs w) \<mapsto> packed c m))"
    and al: "allocs w' = Suc (allocs w)" and len: "length c = n" "n \<le> m" "m \<noteq> 0"
    and v': "v' = \<lparr>data_m = \<lparr>buffer_m = Suc (allocs w), capacity_m = m\<rparr>, size_m = n\<rparr>"
  shows "valid w' v'" "contents w' v' = c" "wf_heap w'" "a \<noteq> 0 \<longrightarrow> heap w' a = None"
    "\<forall>x. x \<noteq> a \<and> x \<noteq> Suc (allocs w) \<longrightarrow> heap w' x = heap w x"
proof -
  let ?b = "Suc (allocs w)"
  have ab: "a \<noteq> ?b" using wf hv by (auto simp: wf_heap_def)
  have hb: "heap w' ?b = Some (packed c m)" using h ab by (simp add: release_def)
  show "valid w' v'" "contents w' v' = c"
    using hb len v' by (auto intro!: validI simp: GetAddress_def Capacity_def)
  show "wf_heap w'"
    using wf h al by (auto simp: wf_heap_def release_def split: if_splits)
  show "a \<noteq> 0 \<longrightarrow> heap w' a = None" using h by (simp add: release_def)
  show "\<forall>x. x \<noteq> a \<and> x \<noteq> ?b \<longrightarrow> heap w' x = heap w x" using h by (simp add: release_def)
qed

lemma after_inplace:
  assumes v: "valid w v" and h: "heap w' = (heap w)(GetAddress v \<mapsto> packed c (Capacity v))"
    and len: "length c = n" "n \<le> Capacity v"
  shows "valid w' (v\<lparr>size_m := n\<rparr>)" "contents w' (v\<lparr>size_m := n\<rparr>) = c"
    "\<forall>x. x \<noteq> GetAddress v \<longrightarrow> heap w' x = heap w x"
    "wf_heap w \<Longrightarrow> allocs w' = allocs w \<Longrightarrow> wf_heap w'"
proof -
  from v have z: "(GetAddress v = 0) = (Capacity v = 0)" by (auto elim: validD)
  show "valid w' (v\<lparr>size_m := n\<rparr>)" "contents w' (v\<lparr>size_m := n\<rparr>) = c"
    using h len z by (auto intro!: validI simp: GetAddress_def Capacity_def)
  show "\<forall>x. x \<noteq> GetAddress v \<longrightarrow> heap w' x = heap w x" using h by simp
  assume "wf_heap w" "allocs w' = allocs w"
  moreover from v obtain b where "heap w (GetAddress v) = Some b" by (auto elim: validD)
  moreover have "GetAddress v = 0 \<Longrightarrow> packed c (Capacity v) = []" using z len by (simp add: packed_def)
  ultimately show "wf_heap w'"
    using h by (auto simp: wf_heap_def)
qed

lemma shape_eq_packed_live:
  assumes "shape_eq zs (packed c cap)" "length c \<le> cap"
  shows "live_prefix (length c) zs" "length zs = cap"
  using assms by (auto simp: live_prefix_nth shape_eq_def nth_packed)

lemma after_throw:
  assumes v: "valid w v" and h: "heap w' = (heap w)(GetAddress v \<mapsto> zs)"
    and sh: "shape_eq zs (packed (contents w v) (Capacity v))"
  shows "valid w' v" "\<forall>x. x \<noteq> GetAddress v \<longrightarrow> heap w' x = heap w x"
    "wf_heap w \<Longrightarrow> allocs w \<le> allocs w' \<Longrightarrow> wf_heap w'"
proof -
  from v obtain c where c: "heap w (GetAddress v) = Some (packed c (Capacity v))"
      "length c = size_m v" "size_m v \<le> Capacity v" "contents w v = c"
      "(GetAddress v = 0) = (Capacity v = 0)"
    by (rule validD)
  have l: "live_prefix (size_m v) zs" "length zs = Capacity v"
    using shape_eq_packed_live[of zs c "Capacity v"] sh c by auto
  then show "valid w' v" using h c(5) by (simp add: valid_def)
  show "\<forall>x. x \<noteq> GetAddress v \<longrightarrow> heap w' x = heap w x" using h by simp
  assume "wf_heap w" "allocs w \<le> allocs w'"
  moreover have "GetAddress v = 0 \<Longrightarrow> zs = []" using l(2) c(5) by simp
  ultimately show "wf_heap w'"
    using h c(1) by (auto simp: wf_heap_def split: if_splits)
qed

lemma valid_block_bytes:
  assumes "wf_world w" "valid w v"
  shows "0 < sizeof_T w" "Capacity v * sizeof_T w \<le> PTRDIFF_MAX"
proof -
  from assms(2) obtain c where c: "heap w (GetAddress v) = Some (packed c (Capacity v))"
      "length c = size_m v" "size_m v \<le> Capacity v"
    by (rule validD)
  show "0 < sizeof_T w" using assms(1) by (simp add: wf_world_def)
  have "length (packed c (Capacity v)) * sizeof_T w \<le> PTRDIFF_MAX"
    using assms(1) c(1) unfolding wf_world_def by blast
  then show "Capacity v * sizeof_T w \<le> PTRDIFF_MAX" using c(2,3) by simp
qed

lemma valid_fits:
  assumes "wf_world w" "valid w v" "n \<le> Capacity v"
  shows "fits n w"
  using fits_mono[OF fits_PTRDIFF[OF valid_block_bytes[OF assms(1,2)]] assms(3)] .

lemma grow_fits:
  assumes "wf_world w" "valid w v" "size_m v = Capacity v"
  shows "fits (if size_m v = 0 then 1 else size_m v * 2) w"
proof (cases "size_m v = 0")
  case True
  have "fits 1 w" using assms(1) by (intro fits_PTRDIFF) (simp_all add: wf_world_def)
  then show ?thesis using True by simp
next
  case False
  then show ?thesis using fits_double[OF valid_block_bytes[OF assms(1,2)]] assms(3) by simp
qed

lemma left_spend_moves: "left (spend i f) = moves_before_throw i f"
  by (simp add: left_def spend_def moves_before_throw_def split: option.splits)

lemma grow_spec:
  fixes tr :: "'a traits" and w :: "'a world"
  assumes wf: "wf_heap w" and v: "valid w v" and full: "size_m v = Capacity v" and p: "p \<le> size_m v"
    and fit: "fits (if size_m v = 0 then 1 else size_m v * 2) w"
    and g: "grow tr p x v w = (r, v', w')"
  shows "r \<noteq> Undefined"
    "faults w = None \<Longrightarrow> r = Done"
    "\<not> enough 2 (faults w) \<Longrightarrow> r = Thrown"
    "r = Done \<Longrightarrow>
       Capacity v' = max 1 (2 * Capacity v) \<and> size_m v' = Suc (size_m v) \<and>
       contents w' v' = take p (contents w v) @ x # drop p (contents w v) \<and>
       valid w' v' \<and> wf_heap w' \<and> GetAddress v' = Suc (allocs w) \<and>
       map_option length (heap w' (GetAddress v')) = Some (max 1 (2 * Capacity v)) \<and>
       (GetAddress v \<noteq> 0 \<longrightarrow> heap w' (GetAddress v) = None) \<and> leaked w' = leaked w"
    "r = Thrown \<Longrightarrow>
       v' = v \<and> valid w' v \<and> wf_heap w' \<and> leaked w' = leaked w \<and>
       heap w' (Suc (allocs w)) = None \<and>
       (\<forall>a. a \<noteq> GetAddress v \<longrightarrow> heap w' a = heap w a) \<and>
       (nothrow_move_constructible tr \<or> copy_constructible tr \<or> \<not> enough 2 (faults w)
          \<longrightarrow> heap w' = heap w)"
    "(r = Done) = enough (Suc (Suc (cost tr (size_m v)))) (faults w)"
    "r = Thrown \<Longrightarrow>
       \<not> (nothrow_move_constructible tr \<or> copy_constructible tr \<or> \<not> enough 2 (faults w)) \<Longrightarrow>
       contents w' v = moved_out tr (moves_before_throw 2 (faults w)) (contents w v)"
proof -
  let ?m = "if size_m v = 0 then 1 else size_m v * 2"
  let ?E = "enough (Suc (Suc (cost tr (size_m v)))) (faults w)"
  let ?b = "Suc (allocs w)" and ?a = "GetAddress v"
  let ?c' = "take p (contents w v) @ x # drop p (contents w v)"
  let ?v' = "\<lparr>data_m = \<lparr>buffer_m = ?b, capacity_m = ?m\<rparr>, size_m = Suc (size_m v)\<rparr>"
  from grow_all[OF wf v full p refl fit, of tr x] g obtain zs where z:
    "(r, v', w') = (if ?E then (Done, ?v', w') else (Thrown, v, w'))"
    "heap w' = (if ?E then release ?a ((heap w)(?b \<mapsto> packed ?c' ?m)) else (heap w)(?a \<mapsto> zs))"
    "shape_eq zs (packed (contents w v) (Capacity v))"
    "nothrow_move_constructible tr \<or> copy_constructible tr \<or> \<not> enough 2 (faults w)
       \<longrightarrow> zs = packed (contents w v) (Capacity v)"
    "leaked w' = leaked w" "allocs w' = (if enough 1 (faults w) then ?b else allocs w)"
    "\<not> ?E \<longrightarrow> zs = migrated tr (left (spend 2 (faults w))) (packed (contents w v) (Capacity v)) 0"
    by (auto split: if_splits)
  from v obtain c where c: "heap w ?a = Some (packed c (Capacity v))" "length c = size_m v"
      "contents w v = c" and c': "size_m v \<le> Capacity v" "(?a = 0) = (Capacity v = 0)"
    by (rule validD)
  have m: "?m = max 1 (2 * Capacity v)" using full by (auto simp: max_def)
  have E2: "?E \<Longrightarrow> enough 2 (faults w)" "?E \<Longrightarrow> enough 1 (faults w)"
    by (auto simp: enough_def split: option.splits)
  show "r \<noteq> Undefined" using z(1) by (auto split: if_splits)
  show "faults w = None \<Longrightarrow> r = Done" using z(1) by simp
  show "\<not> enough 2 (faults w) \<Longrightarrow> r = Thrown" using z(1) E2 by (auto split: if_splits)
  show "r = Done \<Longrightarrow>
       Capacity v' = max 1 (2 * Capacity v) \<and> size_m v' = Suc (size_m v) \<and>
       contents w' v' = take p (contents w v) @ x # drop p (contents w v) \<and>
       valid w' v' \<and> wf_heap w' \<and> GetAddress v' = Suc (allocs w) \<and>
       map_option length (heap w' (GetAddress v')) = Some (max 1 (2 * Capacity v)) \<and>
       (GetAddress v \<noteq> 0 \<longrightarrow> heap w' (GetAddress v) = None) \<and> leaked w' = leaked w"
  proof -
    assume "r = Done"
    then have E: ?E and v': "v' = ?v'" using z(1) by (auto split: if_splits)
    have len: "length ?c' = Suc (size_m v)" "Suc (size_m v) \<le> ?m" "?m \<noteq> 0"
      using c p by auto
    have hv: "heap w ?a \<noteq> None" using c(1) by simp
    have h: "heap w' = release ?a ((heap w)(?b \<mapsto> packed ?c' ?m))" using z(2) E by simp
    have al: "allocs w' = ?b" using z(6) E2(2)[OF E] by simp
    note R = after_realloc[OF wf hv h al len v']
    have ab: "?a \<noteq> ?b" using wf hv by (auto simp: wf_heap_def)
    have "heap w' ?b = Some (packed ?c' ?m)" using h ab by (simp add: release_def)
    then have "map_option length (heap w' (GetAddress v')) = Some ?m"
      using v' len by (simp add: GetAddress_def)
    then show ?thesis using R v' z(5) m by (simp add: Capacity_def GetAddress_def)
  qed
  show "r = Thrown \<Longrightarrow>
       v' = v \<and> valid w' v \<and> wf_heap w' \<and> leaked w' = leaked w \<and>
       heap w' (Suc (allocs w)) = None \<and>
       (\<forall>a. a \<noteq> GetAddress v \<longrightarrow> heap w' a = heap w a) \<and>
       (nothrow_move_constructible tr \<or> copy_constructible tr \<or> \<not> enough 2 (faults w)
          \<longrightarrow> heap w' = heap w)"
  proof -
    assume "r = Thrown"
    then have E: "\<not> ?E" and v': "v' = v" using z(1) by (auto split: if_splits)
    have h: "heap w' = (heap w)(?a \<mapsto> zs)" using z(2) E by simp
    note T = after_throw[OF v h z(3)]
    have ab: "?a \<noteq> ?b" and fresh: "heap w ?b = None" using wf c(1) by (auto simp: wf_heap_def)
    have "allocs w \<le> allocs w'" using z(6) by simp
    then have "wf_heap w'" using T(3) wf by simp
    moreover have "heap w' ?b = None" using h ab fresh by simp
    moreover have "heap w' = heap w" if "zs = packed (contents w v) (Capacity v)"
      using h c that by (auto simp: fun_eq_iff)
    ultimately show ?thesis using v' T(1,2) z(4,5) by auto
  qed
  show "(r = Done) = ?E" using z(1) by (auto split: if_splits)
  show "contents w' v = moved_out tr (moves_before_throw 2 (faults w)) (contents w v)"
    if "r = Thrown"
      and mv: "\<not> (nothrow_move_constructible tr \<or> copy_constructible tr \<or> \<not> enough 2 (faults w))"
  proof -
    let ?j = "left (spend 2 (faults w))"
    from that have E: "\<not> ?E" using z(1) by (auto split: if_splits)
    have j: "?j \<le> length c"
      using E mv c(2) by (auto simp: enough_def spend_def left_def cost_def split: option.splits)
    have "zs = packed (moved_out tr ?j c) (Capacity v)"
      using z(7) E mv migrated_packed[OF j, of "Capacity v" tr] c(2,3) c'(1) by simp
    then have h: "heap w' ?a = Some (packed (moved_out tr ?j c) (Capacity v))"
      using z(2) E by simp
    have "contents w' v = moved_out tr ?j c"
      using h c(2) c' by (intro validI(2)) simp_all
    then show ?thesis using c(3) by (simp add: left_spend_moves)
  qed
qed

lemma Emplace_spec:
  fixes tr :: "'a traits" and w :: "'a world"
  assumes wfw: "wf_world w" and v: "valid w v" and p: "p \<le> size_m v"
    and e: "Emplace tr (GetAddress v, p) x v w = (r, q, v', w')"
  shows "faults w = None \<Longrightarrow> r = Done"
    "r = Done \<Longrightarrow>
       size_m v' = Suc (size_m v) \<and>
       contents w' v' = take p (contents w v) @ x # drop p (contents w v) \<and>
       q = (GetAddress v', p) \<and> valid w' v' \<and> wf_heap w'"
proof -
  note wf = wf_world_heap[OF wfw]
  from v obtain c where c: "heap w (GetAddress v) = Some (packed c (Capacity v))"
      "length c = size_m v" "size_m v \<le> Capacity v" "contents w v = c"
    by (rule validD)
  let ?c' = "take p (contents w v) @ x # drop p (contents w v)"
  have len: "length ?c' = Suc (size_m v)" using c p by simp
  show "faults w = None \<Longrightarrow> r = Done"
  proof (cases "size_m v < Capacity v")
    case True
    assume "faults w = None"
    then show ?thesis using Emplace_room[OF v True p, of tr x] e by auto
  next
    case False
    assume f: "faults w = None"
    from False c(3) have full: "size_m v = Capacity v" by simp
    obtain r1 v1 w1 where g: "grow tr p x v w = (r1, v1, w1)" by (cases "grow tr p x v w")
    from grow_spec(2)[OF wf v full p grow_fits[OF wfw v full] g f] have "r1 = Done" .
    then show ?thesis using Emplace_full[OF full p, of tr x w] g e by simp
  qed
  show "r = Done \<Longrightarrow>
       size_m v' = Suc (size_m v) \<and>
       contents w' v' = take p (contents w v) @ x # drop p (contents w v) \<and>
       q = (GetAddress v', p) \<and> valid w' v' \<and> wf_heap w'"
  proof (cases "size_m v < Capacity v")
    case True
    assume d: "r = Done"
    let ?k = "if p = size_m v then 1 else Suc (cost tr 1) + (size_m v - 1 - p) + 1"
    from Emplace_room[OF v True p, of tr x] e d
    have r: "q = (GetAddress v, p)" "v' = v\<lparr>size_m := Suc (size_m v)\<rparr>"
      "w' = st w ((heap w)(GetAddress v \<mapsto> packed ?c' (Capacity v))) (spend ?k (faults w))"
      by (auto split: if_splits)
    have h: "heap w' = (heap w)(GetAddress v \<mapsto> packed ?c' (Capacity v))" using r(3) by simp
    have le: "Suc (size_m v) \<le> Capacity v" using True by simp
    note I = after_inplace[OF v h len le]
    have "allocs w' = allocs w" using r(3) by simp
    then have "wf_heap w'" using I(4) wf by simp
    then show ?thesis using I(1,2) r(1,2) by (simp add: GetAddress_def)
  next
    case False
    assume d: "r = Done"
    from False c(3) have full: "size_m v = Capacity v" by simp
    obtain r1 v1 w1 where g: "grow tr p x v w = (r1, v1, w1)" by (cases "grow tr p x v w")
    from Emplace_full[OF full p, of tr x w] g e d
    have r: "r1 = Done" "v' = v1" "w' = w1" "q = (GetAddress v1, p)" by (auto split: if_splits)
    from grow_spec(4)[OF wf v full p grow_fits[OF wfw v full] g r(1)] r show ?thesis by simp
  qed
qed

lemma Erase_spec:
  fixes tr :: "'a traits" and w :: "'a world"
  assumes wf: "wf_heap w" and v: "valid w v" and p: "p < size_m v"
    and e: "Erase tr (GetAddress v, p) v w = (r, q, v', w')"
  shows "faults w = None \<Longrightarrow> r = Done"
    "r = Done \<Longrightarrow>
       size_m v' = size_m v - 1 \<and>
       contents w' v' = take p (contents w v) @ drop (Suc p) (contents w v) \<and>
       q = (GetAddress v', p) \<and> valid w' v' \<and> wf_heap w' \<and> Capacity v' = Capacity v"
proof -
  from v obtain c where c: "heap w (GetAddress v) = Some (packed c (Capacity v))"
      "length c = size_m v" "size_m v \<le> Capacity v" "contents w v = c"
    by (rule validD)
  let ?c' = "take p (contents w v) @ drop (Suc p) (contents w v)"
  let ?n = "size_m v - 1 - p"
  have len: "length ?c' = size_m v - 1" using c p by auto
  show "faults w = None \<Longrightarrow> r = Done"
    using Erase_eq[OF v p, of tr] e by auto
  assume d: "r = Done"
  from Erase_eq[OF v p, of tr] e d
  have r: "q = (GetAddress v, p)" "v' = v\<lparr>size_m := size_m v - 1\<rparr>"
    "w' = st w ((heap w)(GetAddress v \<mapsto> packed ?c' (Capacity v))) (spend ?n (faults w))"
    by (auto split: if_splits)
  have h: "heap w' = (heap w)(GetAddress v \<mapsto> packed ?c' (Capacity v))" using r(3) by simp
  have le: "size_m v - 1 \<le> Capacity v" using c(3) by simp
  note I = after_inplace[OF v h len le]
  have "allocs w' = allocs w" using r(3) by simp
  then have "wf_heap w'" using I(4) wf by simp
  then show "size_m v' = size_m v - 1 \<and>
       contents w' v' = take p (contents w v) @ drop (Suc p) (contents w v) \<and>
       q = (GetAddress v', p) \<and> valid w' v' \<and> wf_heap w' \<and> Capacity v' = Capacity v"
    using I(1,2) r(1,2) by (simp add: GetAddress_def Capacity_def)
qed

lemma Emplace_no_faults:
  fixes tr :: "'a traits" and w :: "'a world"
  assumes wfw: "wf_world w" and v: "valid w v" and p: "p \<le> size_m v"
    and f: "faults w = None"
    and e: "Emplace tr (GetAddress v, p) x v w = (r, q, v', w')"
  shows "faults w' = None"
proof (cases "size_m v < Capacity v")
  case True
  show ?thesis using Emplace_room[OF v True p, of tr x] e f by auto
next
  case False
  from v have "size_m v \<le> Capacity v" by (auto elim: validD)
  with False have full: "size_m v = Capacity v" by simp
  obtain r1 v1 w1 where g: "grow tr p x v w = (r1, v1, w1)" by (cases "grow tr p x v w")
  have E: "Emplace tr (GetAddress v, p) x v w =
      (r1, (if r1 = Done then (GetAddress v1, p) else (GetAddress v, p)), v1, w1)"
    using Emplace_full[OF full p, of tr x w] g by simp
  from grow_all[OF wf_world_heap[OF wfw] v full p refl grow_fits[OF wfw v full], of tr x] g f have "faults w1 = None"
    by (auto split: if_splits)
  with E e show ?thesis by simp
qed

lemma small_request: "k \<le> 4294967296 \<Longrightarrow> k mod Suc SIZE_MAX = k"
  by (simp add: SIZE_MAX_def)


lemma replicate_numeral: "replicate (numeral k) x = x # replicate (pred_numeral k) x"
  by (simp add: numeral_eq_Suc)

lemma list_update_Cons_numeral: "(x # xs)[numeral k := y] = x # xs[pred_numeral k := y]"
  by (simp add: numeral_eq_Suc)

lemmas run_defs =
  andthen_def on_throw_def fallible_def slot_def raw_def put_def construct_at_def destroy_at_def
  emplace_new_def copy_new_def move_new_def assign_value_def copy_assign_elem_def
  move_assign_elem_def uninitialized_copy_def uninitialized_move_def destroy_def
  move_backward_def move_range_def Allocate_def Deallocate_def RawMemory_default_def
  RawMemory_ctor_def RawMemory_move_ctor_def RawMemory_move_assign_def RawMemory_dtor_def
  RawMemory_Swap_def Size_def Capacity_def GetAddress_def begin_it_def end_it_def commit_def
  Vector_default_def Vector_sized_def Vector_copy_ctor_def Vector_move_ctor_def Vector_dtor_def
  Swap_def UninitializedMoveOrCopyN_def UninitializedMoveOrCopy_def Reserve_def Resize_def
  EmplaceBackImpl_def PushBack_def EmplaceBack_def PopBack_def Emplace_def Insert_def Erase_def
  copy_assign_body_def move_assign_body_def copy_assign_def move_assign_def
  live_prefix_def valid_def contents_def wf_world_def PTRDIFF_MAX_def
  two_blocks_def two_objects_def small_request replicate_numeral list_update_Cons_numeral
  empty_world_def int_traits_def move_only_traits_def copying_traits_def one_block_def vec_def
  numeral_2_eq_2 numeral_3_eq_3

lemma packed_Nil_0 [simp]: "packed [] 0 = []"
  by (simp add: packed_def)

lemma copy_assign_body_spec:
  fixes w :: "'a world"
  assumes wfw: "wf_world w" and vt: "valid w this" and vr: "valid w rhs"
    and disj: "GetAddress this \<noteq> GetAddress rhs \<or> GetAddress this = 0"
    and e: "copy_assign_body this rhs w = (r, v', w')"
  shows "r \<noteq> Undefined" "faults w = None \<Longrightarrow> r = Done"
    "r = Done \<Longrightarrow> size_m v' = size_m rhs \<and> contents w' v' = contents w rhs \<and> valid w' v' \<and>
       valid w' rhs \<and> contents w' rhs = contents w rhs \<and> wf_heap w'"
    "Capacity this < size_m rhs \<Longrightarrow>
       (r = Done \<longrightarrow> GetAddress v' = Suc (allocs w) \<and> Capacity v' = size_m rhs \<and>
          (GetAddress this \<noteq> 0 \<longrightarrow> heap w' (GetAddress this) = None)) \<and>
       (r = Thrown \<longrightarrow> v' = this \<and> heap w' = heap w) \<and> leaked w' = leaked w"
    "size_m rhs \<le> Capacity this \<Longrightarrow>
       GetAddress v' = GetAddress this \<and> Capacity v' = Capacity this \<and> allocs w' = allocs w \<and>
       leaked w' = leaked w \<and> (\<forall>a. a \<noteq> GetAddress this \<longrightarrow> heap w' a = heap w a) \<and>
       (r = Done \<longleftrightarrow> enough (size_m rhs) (faults w)) \<and>
       (r = Thrown \<longrightarrow> v' = this \<and> valid w' v')"
proof -
  note wf = wf_world_heap[OF wfw]
  let ?a = "GetAddress this" and ?ra = "GetAddress rhs" and ?rs = "size_m rhs"
  from vt obtain c where c: "heap w ?a = Some (packed c (Capacity this))" "length c = size_m this"
      "size_m this \<le> Capacity this" "contents w this = c" "(?a = 0) = (Capacity this = 0)"
    by (rule validD)
  from vr obtain rc where rc: "heap w ?ra = Some (packed rc (Capacity rhs))" "length rc = ?rs"
      "?rs \<le> Capacity rhs" "contents w rhs = rc" "(?ra = 0) = (Capacity rhs = 0)"
    by (rule validD)
  have all: "r \<noteq> Undefined \<and> (faults w = None \<longrightarrow> r = Done) \<and>
    (r = Done \<longrightarrow> size_m v' = size_m rhs \<and> contents w' v' = contents w rhs \<and> valid w' v' \<and>
       valid w' rhs \<and> contents w' rhs = contents w rhs \<and> wf_heap w') \<and>
    (Capacity this < size_m rhs \<longrightarrow>
       (r = Done \<longrightarrow> GetAddress v' = Suc (allocs w) \<and> Capacity v' = size_m rhs \<and>
          (GetAddress this \<noteq> 0 \<longrightarrow> heap w' (GetAddress this) = None)) \<and>
       (r = Thrown \<longrightarrow> v' = this \<and> heap w' = heap w) \<and> leaked w' = leaked w) \<and>
    (size_m rhs \<le> Capacity this \<longrightarrow>
       GetAddress v' = GetAddress this \<and> Capacity v' = Capacity this \<and> allocs w' = allocs w \<and>
       leaked w' = leaked w \<and> (\<forall>a. a \<noteq> GetAddress this \<longrightarrow> heap w' a = heap w a) \<and>
       (r = Done \<longleftrightarrow> enough (size_m rhs) (faults w)) \<and>
       (r = Thrown \<longrightarrow> v' = this \<and> valid w' v'))"
  proof (cases "Capacity this < ?rs")
    case True
    let ?E = "enough (Suc ?rs) (faults w)" and ?b = "Suc (allocs w)"
    from copy_assign_realloc[OF wf vt vr True valid_fits[OF wfw vr rc(3)]] e obtain w1 where R:
      "(r, v', w') = (if ?E then (Done, \<lparr>data_m = \<lparr>buffer_m = ?b, capacity_m = ?rs\<rparr>, size_m = ?rs\<rparr>, w1)
         else (Thrown, this, w1))"
      "heap w1 = (if ?E then release ?a ((heap w)(?b \<mapsto> packed (contents w rhs) ?rs)) else heap w)"
      "leaked w1 = leaked w" "allocs w1 = (if enough 1 (faults w) then ?b else allocs w)"
      by auto
    have w1: "w' = w1" using R(1) by (auto split: if_splits)
    have basic: "r \<noteq> Undefined" "faults w = None \<longrightarrow> r = Done" "r = Thrown \<longrightarrow> v' = this \<and> heap w' = heap w"
        "leaked w' = leaked w"
      using R w1 by (auto split: if_splits option.splits simp: enough_def)
    have d: "size_m v' = ?rs \<and> contents w' v' = rc \<and> valid w' v' \<and>
       valid w' rhs \<and> contents w' rhs = rc \<and> wf_heap w' \<and> GetAddress v' = ?b \<and> Capacity v' = ?rs \<and>
          (?a \<noteq> 0 \<longrightarrow> heap w' ?a = None)" if "r = Done"
    proof -
      from R(1) that have E: "?E" and v': "v' = \<lparr>data_m = \<lparr>buffer_m = ?b, capacity_m = ?rs\<rparr>, size_m = ?rs\<rparr>"
        by (auto split: if_splits)
      have e1: "enough 1 (faults w)" using E by (auto simp: enough_def split: option.splits)
      have h: "heap w' = release ?a ((heap w)(?b \<mapsto> packed rc ?rs))" and al: "allocs w' = ?b"
        using R(2,4) E e1 w1 rc(4) by simp_all
      have hv: "heap w ?a \<noteq> None" using c(1) by simp
      have pos: "?rs \<noteq> 0" using True by simp
      note A = after_realloc[OF wf hv h al rc(2) le_refl pos v']
      have ra0: "?ra \<noteq> 0" using rc(3,5) pos by auto
      have "?ra \<noteq> ?a" using disj ra0 by auto
      moreover have "?ra \<noteq> ?b" using wf rc(1) by (auto simp: wf_heap_def)
      ultimately have same: "heap w' ?ra = heap w ?ra" using A(5) by simp
      have "valid w' rhs" "contents w' rhs = rc"
        using valid_cong[OF same] contents_cong[OF same] vr rc(4) by simp_all
      then show ?thesis using A(1-4) v' by (simp add: GetAddress_def Capacity_def)
    qed
    show ?thesis using True basic d rc(4) by auto
  next
    case False
    then have fits: "?rs \<le> Capacity this" by simp
    let ?E = "enough ?rs (faults w)"
    from copy_assign_inplace[OF vt vr fits disj] e obtain zs where R:
      "(r, v', w') = (if ?E
         then (Done, this\<lparr>size_m := ?rs\<rparr>,
               st w ((heap w)(?a \<mapsto> packed (contents w rhs) (Capacity this))) (spend ?rs (faults w)))
         else (Thrown, this, st w ((heap w)(?a \<mapsto> zs)) None))"
      "shape_eq zs (packed (contents w this) (Capacity this))"
      by auto
    have basic: "r \<noteq> Undefined" "faults w = None \<longrightarrow> r = Done" "r = Done \<longleftrightarrow> ?E"
      "GetAddress v' = ?a" "Capacity v' = Capacity this" "allocs w' = allocs w" "leaked w' = leaked w"
      "\<forall>x. x \<noteq> ?a \<longrightarrow> heap w' x = heap w x"
      using R(1) by (auto split: if_splits option.splits simp: enough_def GetAddress_def Capacity_def)
    have t: "v' = this \<and> valid w' v'" if "r = Thrown"
    proof -
      from R(1) that have v': "v' = this" and h: "heap w' = (heap w)(?a \<mapsto> zs)"
        by (auto split: if_splits)
      show ?thesis using after_throw(1)[OF vt h R(2)] v' by simp
    qed
    have d: "size_m v' = ?rs \<and> contents w' v' = rc \<and> valid w' v' \<and>
       valid w' rhs \<and> contents w' rhs = rc \<and> wf_heap w'" if "r = Done"
    proof -
      from R(1) that have v': "v' = this\<lparr>size_m := ?rs\<rparr>"
        and h: "heap w' = (heap w)(?a \<mapsto> packed rc (Capacity this))"
        using rc(4) by (auto split: if_splits)
      note A = after_inplace[OF vt h rc(2) fits]
      have same: "heap w' ?ra = heap w ?ra"
      proof (cases "?ra = ?a")
        case True
        with disj have a0: "?a = 0" by auto
        then have "Capacity this = 0" using c(5) by simp
        then have "rc = []" using fits rc(2) by simp
        then show ?thesis using h a0 True wf \<open>Capacity this = 0\<close> by (simp add: wf_heap_def)
      next
        case False
        then show ?thesis using A(3) by simp
      qed
      have "valid w' rhs" "contents w' rhs = rc"
        using valid_cong[OF same] contents_cong[OF same] vr rc(4) by simp_all
      moreover have "wf_heap w'" using A(4)[OF wf] basic(6) by simp
      ultimately show ?thesis using A(1,2) v' by simp
    qed
    show ?thesis using False fits basic t d rc(4) by auto
  qed
  show "r \<noteq> Undefined" "faults w = None \<Longrightarrow> r = Done"
    "r = Done \<Longrightarrow> size_m v' = size_m rhs \<and> contents w' v' = contents w rhs \<and> valid w' v' \<and>
       valid w' rhs \<and> contents w' rhs = contents w rhs \<and> wf_heap w'"
    "Capacity this < size_m rhs \<Longrightarrow>
       (r = Done \<longrightarrow> GetAddress v' = Suc (allocs w) \<and> Capacity v' = size_m rhs \<and>
          (GetAddress this \<noteq> 0 \<longrightarrow> heap w' (GetAddress this) = None)) \<and>
       (r = Thrown \<longrightarrow> v' = this \<and> heap w' = heap w) \<and> leaked w' = leaked w"
    "size_m rhs \<le> Capacity this \<Longrightarrow>
       GetAddress v' = GetAddress this \<and> Capacity v' = Capacity this \<and> allocs w' = allocs w \<and>
       leaked w' = leaked w \<and> (\<forall>a. a \<noteq> GetAddress this \<longrightarrow> heap w' a = heap w a) \<and>
       (r = Done \<longleftrightarrow> enough (size_m rhs) (faults w)) \<and>
       (r = Thrown \<longrightarrow> v' = this \<and> valid w' v')"
    using all by blast+
qed

section \<open>Class invariant\<close>

text \<open>
  Claim C1 does not hold of \<open>Emplace\<close> (and so of \<open>Insert\<close>) in the branch without growth.
  The last statement of that branch, \<^verbatim>\<open>*pos_it = std::move(copy)\<close>, stands after the
  \<^verbatim>\<open>try\<close> block that guards \<^verbatim>\<open>std::move_backward\<close>. When this move assignment throws,
  the object constructed in slot \<open>size\<close> stays alive while \<open>size\<close> is not incremented.
  Here the Vector holds \<open>[5]\<close> in a block of capacity 2, the element type has throwing
  moves, and the third fallible primitive of \<open>Emplace\<close> at position 0 (after
  \<^verbatim>\<open>T copy{...}\<close> and the construction in slot 1) is the one that throws: the exception
  leaves size 1 and two live slots, so the Vector is not valid, and its destructor then
  releases the block with one object still alive.
\<close>

theorem Emplace_throwing_assignment_breaks_invariant:
  "valid ((one_block [Some 5, None])\<lparr>faults := Some 2\<rparr>) (vec 1 2 1) \<and>
   Emplace copying_traits (1, 0) 9 (vec 1 2 1) ((one_block [Some 5, None])\<lparr>faults := Some 2\<rparr>)
     = (Thrown, (1, 0), vec 1 2 1, one_block [Some 0, Some 5]) \<and>
   size_m (vec 1 2 1) = 1 \<and> slot (one_block [Some 0, Some 5]) (1, 1) = Some 5 \<and>
   \<not> valid (one_block [Some 0, Some 5]) (vec 1 2 1) \<and>
   Vector_dtor (vec 1 2 1) (one_block [Some 0, Some 5])
     = (Done, \<lparr>heap = (\<lambda>_. None)(0 \<mapsto> []), allocs = 1, faults = None, leaked = 1, sizeof_T = 4\<rparr>)"
  by (simp add: run_defs fun_eq_iff)

section \<open>Failure of a growing append or insert\<close>

text \<open>
  Claim C2, as amended. On a full Vector the fallible primitives of \<open>PushBack\<close>,
  \<open>EmplaceBack\<close>, \<open>Emplace\<close> and \<open>Insert\<close> are, in this order, the allocation of the new
  block, the constructor of the new element, and the constructors of the migration (one
  for each old element, none when the move constructor cannot throw). The call returns if
  all of them succeed, and otherwise the exception of the first one that throws propagates:
  no exception is swallowed and no outcome is undefined. When the call leaves by an
  exception the state is \<open>rolled_back\<close>: the Vector keeps its old block as storage, with
  its capacity and size, and is valid; the new element, once constructed, has been destroyed
  and the new block released. If the allocation or the constructor of the new element
  threw, or if the migration threw while copying, the heap and hence all element values
  are exactly as before the call. If the migration threw while moving (the element type
  has no copy constructor and its move constructor may throw), the elements are the old
  ones with those already moved left in their moved-from state, and nothing else differs.
\<close>

theorem growth_failure_rolls_back:
  fixes tr :: "'a traits" and w :: "'a world"
  assumes wf: "wf_world w" and v: "valid w v" and full: "size_m v = Capacity v"
  shows "fst (PushBack tr x v w)
      = (if enough (2 + cost tr (size_m v)) (faults w) then Done else Thrown) \<and>
    EmplaceBack tr x v w = PushBack tr x v w \<and>
    (PushBack tr x v w = (Thrown, v', w') \<longrightarrow> rolled_back tr v w v' w') \<and>
    (p \<le> size_m v \<longrightarrow>
       fst (Emplace tr (GetAddress v, p) x v w)
         = (if enough (2 + cost tr (size_m v)) (faults w) then Done else Thrown) \<and>
       Insert tr (GetAddress v, p) x v w = Emplace tr (GetAddress v, p) x v w \<and>
       (Emplace tr (GetAddress v, p) x v w = (Thrown, q, v', w') \<longrightarrow> rolled_back tr v w v' w'))"
proof -
  note wh = wf_world_heap[OF wf] and fit = grow_fits[OF wf v full]
  let ?E = "enough (2 + cost tr (size_m v)) (faults w)"
  have out: "r = (if ?E then Done else Thrown)"
    if "grow tr k x v w = (r, v1, w1)" "k \<le> size_m v" for k r v1 w1
    using grow_spec(1,6)[OF wh v full that(2) fit that(1)] by (cases r) auto
  have rb: "rolled_back tr v w v1 w1"
    if g: "grow tr k x v w = (Thrown, v1, w1)" and k: "k \<le> size_m v" for k v1 w1
  proof -
    note T = grow_spec(5)[OF wh v full k fit g refl]
    show ?thesis
    proof (cases "nothrow_move_constructible tr \<or> copy_constructible tr \<or> \<not> enough 2 (faults w)")
      case True
      then show ?thesis using T by (auto simp: rolled_back_def)
    next
      case False
      from grow_spec(7)[OF wh v full k fit g refl False] T False
      show ?thesis by (simp add: rolled_back_def)
    qed
  qed
  have pb: "EmplaceBackImpl tr x v w = grow tr (size_m v) x v w"
    by (rule EmplaceBackImpl_full[OF full])
  obtain r0 v0 w0 where g0: "grow tr (size_m v) x v w = (r0, v0, w0)"
    by (cases "grow tr (size_m v) x v w")
  have 1: "fst (EmplaceBackImpl tr x v w) = (if ?E then Done else Thrown)"
    using out[OF g0 le_refl] pb g0 by simp
  have 2: "EmplaceBackImpl tr x v w = (Thrown, v', w') \<longrightarrow> rolled_back tr v w v' w'"
    using rb[of "size_m v" v' w'] pb by simp
  have 3: "fst (Emplace tr (GetAddress v, p) x v w) = (if ?E then Done else Thrown) \<and>
       (Emplace tr (GetAddress v, p) x v w = (Thrown, q, v', w') \<longrightarrow> rolled_back tr v w v' w')"
    if p: "p \<le> size_m v"
  proof -
    obtain r1 v1 w1 where g: "grow tr p x v w = (r1, v1, w1)" by (cases "grow tr p x v w")
    have E: "Emplace tr (GetAddress v, p) x v w =
        (r1, (if r1 = Done then (GetAddress v1, p) else (GetAddress v, p)), v1, w1)"
      using Emplace_full[OF full p, of tr x w] g by simp
    show ?thesis
      using E out[OF g p] rb[of p v1 w1] g p by auto
  qed
  show ?thesis
    using 1 2 3 by (simp add: PushBack_def EmplaceBack_def Insert_def)
qed

theorem growth_failure_rolls_back_witness:
  "wf_world ((one_block [Some 5, Some 6])\<lparr>faults := Some 3\<rparr>) \<and>
   valid ((one_block [Some 5, Some 6])\<lparr>faults := Some 3\<rparr>) (vec 1 2 2) \<and>
   size_m (vec 1 2 2) = Capacity (vec 1 2 2) \<and>
   PushBack copying_traits 7 (vec 1 2 2) ((one_block [Some 5, Some 6])\<lparr>faults := Some 3\<rparr>)
     = (Thrown, vec 1 2 2, (one_block [Some 5, Some 6])\<lparr>allocs := 2\<rparr>) \<and>
   rolled_back copying_traits (vec 1 2 2) ((one_block [Some 5, Some 6])\<lparr>faults := Some 3\<rparr>)
     (vec 1 2 2) ((one_block [Some 5, Some 6])\<lparr>allocs := 2\<rparr>) \<and>
   PushBack move_only_traits 7 (vec 1 2 2) ((one_block [Some 5, Some 6])\<lparr>faults := Some 3\<rparr>)
     = (Thrown, vec 1 2 2, (one_block [Some 0, Some 6])\<lparr>allocs := 2\<rparr>) \<and>
   rolled_back move_only_traits (vec 1 2 2) ((one_block [Some 5, Some 6])\<lparr>faults := Some 3\<rparr>)
     (vec 1 2 2) ((one_block [Some 0, Some 6])\<lparr>allocs := 2\<rparr>) \<and>
   moved_out move_only_traits (moves_before_throw 2 (Some 3)) [5, 6] = [0, 6] \<and>
   fst (PushBack int_traits 7 (vec 1 2 2) ((one_block [Some 5, Some 6])\<lparr>faults := Some 3\<rparr>)) = Done"
proof -
  let ?w = "(one_block [Some 5, Some 6])\<lparr>faults := Some 3\<rparr>"
  have wf: "wf_world ?w" by (simp add: run_defs)
  have v: "valid ?w (vec 1 2 2)" by (simp add: run_defs)
  have c: "size_m (vec 1 2 2) = Capacity (vec 1 2 2)" by (simp add: Capacity_def vec_def)
  have r: "PushBack copying_traits 7 (vec 1 2 2) ?w
      = (Thrown, vec 1 2 2, (one_block [Some 5, Some 6])\<lparr>allocs := 2\<rparr>)"
    by (simp add: run_defs fun_eq_iff)
  have r2: "PushBack move_only_traits 7 (vec 1 2 2) ?w
      = (Thrown, vec 1 2 2, (one_block [Some 0, Some 6])\<lparr>allocs := 2\<rparr>)"
    by (simp add: run_defs fun_eq_iff)
  have m: "moved_out move_only_traits (moves_before_throw 2 (Some 3)) [5, 6] = [0, 6]"
    by (simp add: moved_out_def moves_before_throw_def move_only_traits_def)
  have e: "enough (2 + cost int_traits (size_m (vec 1 2 2))) (faults ?w)"
    by (simp add: enough_def cost_def int_traits_def one_block_def)
  note G = growth_failure_rolls_back[OF wf v c]
  have a: "rolled_back copying_traits (vec 1 2 2) ?w (vec 1 2 2) ((one_block [Some 5, Some 6])\<lparr>allocs := 2\<rparr>)"
    using G[of copying_traits 7 "vec 1 2 2" "(one_block [Some 5, Some 6])\<lparr>allocs := 2\<rparr>"] r by simp
  have b: "rolled_back move_only_traits (vec 1 2 2) ?w (vec 1 2 2) ((one_block [Some 0, Some 6])\<lparr>allocs := 2\<rparr>)"
    using G[of move_only_traits 7 "vec 1 2 2" "(one_block [Some 0, Some 6])\<lparr>allocs := 2\<rparr>"] r2 by simp
  have d: "fst (PushBack int_traits 7 (vec 1 2 2) ?w) = Done"
    using G[of int_traits 7] e by simp
  show ?thesis using wf v c r r2 m a b d by simp
qed

theorem PushBack_throwing_move_counterexample:
  "wf_world ((one_block [Some 5, Some 6])\<lparr>faults := Some 3\<rparr>) \<and>
   valid ((one_block [Some 5, Some 6])\<lparr>faults := Some 3\<rparr>) (vec 1 2 2) \<and>
   size_m (vec 1 2 2) = Capacity (vec 1 2 2) \<and>
   contents ((one_block [Some 5, Some 6])\<lparr>faults := Some 3\<rparr>) (vec 1 2 2) = [5, 6] \<and>
   PushBack move_only_traits 7 (vec 1 2 2) ((one_block [Some 5, Some 6])\<lparr>faults := Some 3\<rparr>)
     = (Thrown, vec 1 2 2, (one_block [Some 0, Some 6])\<lparr>allocs := 2\<rparr>) \<and>
   contents ((one_block [Some 0, Some 6])\<lparr>allocs := 2\<rparr>) (vec 1 2 2) = [0, 6] \<and>
   contents ((one_block [Some 0, Some 6])\<lparr>allocs := 2\<rparr>) (vec 1 2 2)
     \<noteq> contents ((one_block [Some 5, Some 6])\<lparr>faults := Some 3\<rparr>) (vec 1 2 2)"
  by (simp add: run_defs fun_eq_iff)

section \<open>Growth policy\<close>

text \<open>
  Claim C5. When \<open>PushBack\<close>, \<open>EmplaceBack\<close>, \<open>Emplace\<close> or \<open>Insert\<close> finds the Vector full
  and returns, the Vector's capacity is \<open>max 1 (2 * old capacity)\<close> and its new block has
  exactly that many slots, whatever the old capacity, \<open>0\<close> included; and without pending
  faults these calls do return.
\<close>

theorem growth_doubles_capacity:
  assumes wf: "wf_world w" and v: "valid w v" and full: "size_m v = Capacity v"
  shows "(PushBack tr x v w = (Done, v', w') \<longrightarrow> doubled v w' v') \<and>
    (EmplaceBack tr x v w = (Done, v', w') \<longrightarrow> doubled v w' v') \<and>
    (p \<le> size_m v \<longrightarrow>
       (Emplace tr (GetAddress v, p) x v w = (Done, q, v', w') \<longrightarrow> doubled v w' v') \<and>
       (Insert tr (GetAddress v, p) x v w = (Done, q, v', w') \<longrightarrow> doubled v w' v') \<and>
       (faults w = None \<longrightarrow> fst (Emplace tr (GetAddress v, p) x v w) = Done \<and>
          fst (Insert tr (GetAddress v, p) x v w) = Done)) \<and>
    (faults w = None \<longrightarrow> fst (PushBack tr x v w) = Done \<and> fst (EmplaceBack tr x v w) = Done)"
proof -
  note wh = wf_world_heap[OF wf] and fit = grow_fits[OF wf v full]
  have dbl: "doubled v w1 v1" if "grow tr k x v w = (Done, v1, w1)" "k \<le> size_m v" for k v1 w1
    using grow_spec(4)[OF wh v full that(2) fit that(1)] by (auto simp: doubled_def)
  have pb: "EmplaceBackImpl tr x v w = grow tr (size_m v) x v w"
    by (rule EmplaceBackImpl_full[OF full])
  obtain r0 v0 w0 where g0: "grow tr (size_m v) x v w = (r0, v0, w0)"
    by (cases "grow tr (size_m v) x v w")
  have 1: "EmplaceBackImpl tr x v w = (Done, v', w') \<longrightarrow> doubled v w' v'"
    using dbl[of "size_m v" v' w'] pb by simp
  have 2: "faults w = None \<longrightarrow> fst (EmplaceBackImpl tr x v w) = Done"
    using grow_spec(2)[OF wh v full le_refl fit g0] pb g0 by simp
  have 3: "(Emplace tr (GetAddress v, p) x v w = (Done, q, v', w') \<longrightarrow> doubled v w' v') \<and>
       (faults w = None \<longrightarrow> fst (Emplace tr (GetAddress v, p) x v w) = Done)"
    if p: "p \<le> size_m v"
  proof -
    obtain r1 v1 w1 where g: "grow tr p x v w = (r1, v1, w1)" by (cases "grow tr p x v w")
    have E: "Emplace tr (GetAddress v, p) x v w =
        (r1, (if r1 = Done then (GetAddress v1, p) else (GetAddress v, p)), v1, w1)"
      using Emplace_full[OF full p, of tr x w] g by simp
    show ?thesis
      using E dbl[of p v1 w1] g p grow_spec(2)[OF wh v full p fit g] by auto
  qed
  show ?thesis
    using 1 2 3 by (simp add: PushBack_def EmplaceBack_def Insert_def)
qed

theorem growth_doubles_capacity_witness:
  "wf_world empty_world \<and> valid empty_world Vector_default \<and>
   size_m Vector_default = Capacity Vector_default \<and>
   PushBack int_traits 7 Vector_default empty_world
     = (Done, vec 1 1 1, one_block [Some 7]) \<and>
   doubled Vector_default (one_block [Some 7]) (vec 1 1 1) \<and>
   Capacity (vec 1 1 1) = max 1 (2 * 0)"
proof -
  let ?w' = "one_block [Some 7]"
  have wf: "wf_world empty_world" by (simp add: run_defs)
  have v: "valid empty_world Vector_default" by (simp add: run_defs)
  have c: "size_m Vector_default = Capacity Vector_default"
    by (simp add: Capacity_def Vector_default_def RawMemory_default_def)
  have r: "PushBack int_traits 7 Vector_default empty_world = (Done, vec 1 1 1, ?w')"
    by (simp add: run_defs fun_eq_iff)
  from growth_doubles_capacity[OF wf v c, of int_traits 7 "vec 1 1 1" ?w'] r
  have "doubled Vector_default ?w' (vec 1 1 1)" by simp
  with wf v c r show ?thesis by (simp add: Capacity_def vec_def)
qed

section \<open>Reserve\<close>




section \<open>Copy assignment\<close>

text \<open>
  Claim C4. Copy assignment between two distinct Vector objects (valid, and not sharing a
  block). When the source's size exceeds the target's capacity, it builds the copy in a
  fresh block whose capacity is the source's size and adopts it; a failure on this path
  leaves the target object and the whole heap as they were. Otherwise it allocates nothing
  and works in the target's own block; a failure on this path leaves the target valid,
  with its old size and capacity, but possibly with some elements already assigned (the
  example after the theorem shows such a state). Whenever the assignment returns, the target's size is the
  source's size and its elements are the source's elements; the source is unchanged.
  Without pending faults the assignment returns.
\<close>

theorem copy_assign_spec:
  fixes w :: "'a world"
  assumes ne: "this \<noteq> rhs" and wf: "wf_world w"
    and vt: "valid w (objs this)" and vr: "valid w (objs rhs)"
    and disj: "GetAddress (objs this) \<noteq> GetAddress (objs rhs) \<or> GetAddress (objs this) = 0"
    and e: "copy_assign this rhs (objs, w) = (r, objs', w')"
  shows "r \<noteq> Undefined \<and> (faults w = None \<longrightarrow> r = Done) \<and>
    (\<forall>o'. o' \<noteq> this \<longrightarrow> objs' o' = objs o') \<and>
    (r = Done \<longrightarrow>
       size_m (objs' this) = size_m (objs rhs) \<and>
       contents w' (objs' this) = contents w (objs rhs) \<and> valid w' (objs' this) \<and>
       contents w' (objs' rhs) = contents w (objs rhs) \<and> valid w' (objs' rhs)) \<and>
    (Capacity (objs this) < size_m (objs rhs) \<longrightarrow>
       (r = Done \<longrightarrow> GetAddress (objs' this) = Suc (allocs w) \<and>
          Capacity (objs' this) = size_m (objs rhs)) \<and>
       (r = Thrown \<longrightarrow> objs' = objs \<and> heap w' = heap w)) \<and>
    (size_m (objs rhs) \<le> Capacity (objs this) \<longrightarrow>
       GetAddress (objs' this) = GetAddress (objs this) \<and>
       Capacity (objs' this) = Capacity (objs this) \<and> allocs w' = allocs w \<and>
       (\<forall>a. a \<noteq> GetAddress (objs this) \<longrightarrow> heap w' a = heap w a) \<and>
       (r = Thrown \<longrightarrow> objs' = objs \<and> valid w' (objs this)))"
proof -
  obtain v1 where b: "copy_assign_body (objs this) (objs rhs) w = (r, v1, w')"
    and o: "objs' = objs(this := v1)"
    using e ne by (auto simp: copy_assign_def split: prod.splits)
  note S = copy_assign_body_spec[OF wf vt vr disj b]
  have same: "objs(this := objs this) = objs" by simp
  show ?thesis
    using S(1) S(2) S(3) S(4) S(5) ne o same by auto
qed

theorem copy_assign_spec_witness:
  "(1::nat) \<noteq> 2 \<and>
   wf_world ((two_blocks [Some 1, Some 2] [Some 7, Some 8])\<lparr>faults := Some 1\<rparr>) \<and>
   valid ((two_blocks [Some 1, Some 2] [Some 7, Some 8])\<lparr>faults := Some 1\<rparr>) (vec 1 2 2) \<and>
   valid ((two_blocks [Some 1, Some 2] [Some 7, Some 8])\<lparr>faults := Some 1\<rparr>) (vec 2 2 2) \<and>
   copy_assign 1 2 (two_objects (vec 1 2 2) (vec 2 2 2),
       (two_blocks [Some 1, Some 2] [Some 7, Some 8])\<lparr>faults := Some 1\<rparr>)
     = (Thrown, two_objects (vec 1 2 2) (vec 2 2 2), two_blocks [Some 7, Some 2] [Some 7, Some 8]) \<and>
   valid (two_blocks [Some 7, Some 2] [Some 7, Some 8]) (vec 1 2 2) \<and>
   contents (two_blocks [Some 7, Some 2] [Some 7, Some 8]) (vec 1 2 2) = [7, 2] \<and>
   copy_assign 1 2 (two_objects (vec 1 2 2) (vec 2 2 2), two_blocks [Some 1, Some 2] [Some 7, Some 8])
     = (Done, two_objects (vec 1 2 2) (vec 2 2 2), two_blocks [Some 7, Some 8] [Some 7, Some 8])"
proof -
  let ?u = "two_blocks [Some 1, Some 2] [Some 7, Some 8]"
  let ?w = "?u\<lparr>faults := Some 1\<rparr>"
  let ?os = "two_objects (vec 1 2 2) (vec 2 2 2)"
  let ?w' = "two_blocks [Some 7, Some 2] [Some 7, Some 8]"
  have wf: "wf_world ?w" by (simp add: run_defs)
  have os: "?os 1 = vec 1 2 2" "?os 2 = vec 2 2 2" by (simp_all add: two_objects_def)
  have v: "valid ?w (vec 1 2 2)" "valid ?w (vec 2 2 2)"
    by (simp_all add: run_defs two_blocks_def)
  have d: "GetAddress (vec 1 2 2) \<noteq> GetAddress (vec 2 2 2)" by (simp add: run_defs)
  have r: "copy_assign 1 2 (?os, ?w) = (Thrown, ?os, ?w')"
    by (simp add: run_defs two_blocks_def two_objects_def fun_eq_iff)
  have r2: "copy_assign 1 2 (?os, ?u) = (Done, ?os, two_blocks [Some 7, Some 8] [Some 7, Some 8])"
    by (simp add: run_defs two_blocks_def two_objects_def fun_eq_iff)
  have c: "contents ?w' (vec 1 2 2) = [7, 2]" by (simp add: run_defs two_blocks_def)
  have fits: "size_m (vec 2 2 2) \<le> Capacity (vec 1 2 2)" by (simp add: run_defs)
  have "valid ?w' (vec 1 2 2)"
    using copy_assign_spec[of 1 2 ?w ?os Thrown ?os ?w'] wf v d r os fits by simp
  then show ?thesis using wf v r r2 c by simp
qed

section \<open>Insert and Erase\<close>

text \<open>
  Claim C6. On a valid Vector of size \<open>n\<close> with elements \<open>c\<close>: \<open>Insert\<close> and \<open>Emplace\<close> at a
  position \<open>p \<le> n\<close>, when they return, give size \<open>n + 1\<close> and elements
  \<open>take p c @ x # drop p c\<close>, so the new element is at \<open>p\<close> and every element formerly at
  \<open>i \<ge> p\<close> is at \<open>i + 1\<close>; the returned iterator points to slot \<open>p\<close> of the Vector's block.
  \<open>Erase\<close> at \<open>p < n\<close>, when it returns, gives size \<open>n - 1\<close> and elements
  \<open>take p c @ drop (Suc p) c\<close>, the last slot is raw again (the Vector is valid with one
  element less in the same block), and the returned iterator points to slot \<open>p\<close>, which now
  holds the element that followed the erased one. \<open>Erase\<close> at the iterator returned by
  \<open>Insert\<close> restores the original elements. Without pending faults all of these calls
  return.
\<close>

theorem Insert_Erase_contents:
  fixes tr :: "'a traits" and w :: "'a world"
  assumes wf: "wf_world w" and v: "valid w v"
  shows "(p \<le> size_m v \<longrightarrow>
       Emplace tr (GetAddress v, p) x v w = Insert tr (GetAddress v, p) x v w \<and>
       (faults w = None \<longrightarrow> fst (Insert tr (GetAddress v, p) x v w) = Done) \<and>
       (Insert tr (GetAddress v, p) x v w = (Done, q, v', w') \<longrightarrow>
          valid w' v' \<and> size_m v' = size_m v + 1 \<and>
          contents w' v' = take p (contents w v) @ x # drop p (contents w v) \<and>
          contents w' v' ! p = x \<and>
          (\<forall>i. p \<le> i \<and> i < size_m v \<longrightarrow> contents w' v' ! (i + 1) = contents w v ! i) \<and>
          (\<forall>i. i < p \<longrightarrow> contents w' v' ! i = contents w v ! i) \<and>
          q = (GetAddress v', p) \<and>
          (faults w = None \<longrightarrow> fst (Erase tr q v' w') = Done) \<and>
          (Erase tr q v' w' = (Done, q2, v2, w2) \<longrightarrow>
             valid w2 v2 \<and> size_m v2 = size_m v \<and> contents w2 v2 = contents w v))) \<and>
    (p < size_m v \<longrightarrow>
       (faults w = None \<longrightarrow> fst (Erase tr (GetAddress v, p) v w) = Done) \<and>
       (Erase tr (GetAddress v, p) v w = (Done, q, v', w') \<longrightarrow>
          valid w' v' \<and> size_m v' = size_m v - 1 \<and> Capacity v' = Capacity v \<and>
          contents w' v' = take p (contents w v) @ drop (Suc p) (contents w v) \<and>
          (\<forall>i. p \<le> i \<and> i < size_m v - 1 \<longrightarrow> contents w' v' ! i = contents w v ! (i + 1)) \<and>
          (\<forall>i. i < p \<longrightarrow> contents w' v' ! i = contents w v ! i) \<and>
          q = (GetAddress v', p)))"
proof -
  from v obtain c where c: "length c = size_m v" "contents w v = c"
    by (rule validD)
  have ins: "valid w' v' \<and> size_m v' = size_m v + 1 \<and>
          contents w' v' = take p c @ x # drop p c \<and>
          contents w' v' ! p = x \<and>
          (\<forall>i. p \<le> i \<and> i < size_m v \<longrightarrow> contents w' v' ! (i + 1) = c ! i) \<and>
          (\<forall>i. i < p \<longrightarrow> contents w' v' ! i = c ! i) \<and>
          q = (GetAddress v', p) \<and>
          (faults w = None \<longrightarrow> fst (Erase tr q v' w') = Done) \<and>
          (Erase tr q v' w' = (Done, q2, v2, w2) \<longrightarrow>
             valid w2 v2 \<and> size_m v2 = size_m v \<and> contents w2 v2 = c)"
    if p: "p \<le> size_m v" and e: "Emplace tr (GetAddress v, p) x v w = (Done, q, v', w')"
  proof -
    from Emplace_spec(2)[OF wf v p e] c
    have s: "size_m v' = Suc (size_m v)" "contents w' v' = take p c @ x # drop p c"
        "q = (GetAddress v', p)" "valid w' v'" "wf_heap w'"
      by simp_all
    have p': "p < size_m v'" using s(1) p by simp
    have n1: "contents w' v' ! p = x" using s(2) p c by (simp add: nth_append)
    have n2: "\<forall>i. p \<le> i \<and> i < size_m v \<longrightarrow> contents w' v' ! (i + 1) = c ! i"
      using s(2) p c by (auto simp: nth_append nth_Cons' min_def)
    have n3: "\<forall>i. i < p \<longrightarrow> contents w' v' ! i = c ! i"
      using s(2) p c by (auto simp: nth_append)
    obtain r3 q3 v3 w3 where er: "Erase tr (GetAddress v', p) v' w' = (r3, q3, v3, w3)"
      by (cases "Erase tr (GetAddress v', p) v' w'") auto
    have f: "faults w = None \<longrightarrow> fst (Erase tr q v' w') = Done"
      using Erase_spec(1)[OF s(5,4) p' er] Emplace_no_faults[OF wf v p _ e] er s(3) by simp
    have inv: "valid w2 v2 \<and> size_m v2 = size_m v \<and> contents w2 v2 = c"
      if "Erase tr q v' w' = (Done, q2, v2, w2)"
    proof -
      have "take p (take p c @ x # drop p c) @ drop (Suc p) (take p c @ x # drop p c) = c"
        using p c by simp
      then show ?thesis
        using Erase_spec(2)[OF s(5,4) p', of tr Done q2 v2 w2] that s by simp
    qed
    show ?thesis using s n1 n2 n3 f inv by simp
  qed
  have insf: "faults w = None \<longrightarrow> fst (Emplace tr (GetAddress v, p) x v w) = Done" if p: "p \<le> size_m v"
  proof -
    obtain r1 q1 v1 w1 where e: "Emplace tr (GetAddress v, p) x v w = (r1, q1, v1, w1)"
      by (cases "Emplace tr (GetAddress v, p) x v w") auto
    show ?thesis using Emplace_spec(1)[OF wf v p e] e by simp
  qed
  have ers: "(faults w = None \<longrightarrow> fst (Erase tr (GetAddress v, p) v w) = Done) \<and>
       (Erase tr (GetAddress v, p) v w = (Done, q, v', w') \<longrightarrow>
          valid w' v' \<and> size_m v' = size_m v - 1 \<and> Capacity v' = Capacity v \<and>
          contents w' v' = take p c @ drop (Suc p) c \<and>
          (\<forall>i. p \<le> i \<and> i < size_m v - 1 \<longrightarrow> contents w' v' ! i = c ! (i + 1)) \<and>
          (\<forall>i. i < p \<longrightarrow> contents w' v' ! i = c ! i) \<and>
          q = (GetAddress v', p))"
    if p: "p < size_m v"
  proof -
    obtain r1 q1 v1 w1 where e: "Erase tr (GetAddress v, p) v w = (r1, q1, v1, w1)"
      by (cases "Erase tr (GetAddress v, p) v w") auto
    have 1: "faults w = None \<longrightarrow> fst (Erase tr (GetAddress v, p) v w) = Done"
      using Erase_spec(1)[OF wf_world_heap[OF wf] v p e] e by simp
    have 2: "valid w' v' \<and> size_m v' = size_m v - 1 \<and> Capacity v' = Capacity v \<and>
          contents w' v' = take p c @ drop (Suc p) c \<and>
          (\<forall>i. p \<le> i \<and> i < size_m v - 1 \<longrightarrow> contents w' v' ! i = c ! (i + 1)) \<and>
          (\<forall>i. i < p \<longrightarrow> contents w' v' ! i = c ! i) \<and>
          q = (GetAddress v', p)"
      if e': "Erase tr (GetAddress v, p) v w = (Done, q, v', w')"
    proof -
      from Erase_spec(2)[OF wf_world_heap[OF wf] v p e'] c
      have s: "size_m v' = size_m v - 1" "contents w' v' = take p c @ drop (Suc p) c"
        "q = (GetAddress v', p)" "valid w' v'" "Capacity v' = Capacity v"
        by simp_all
      have "\<forall>i. p \<le> i \<and> i < size_m v - 1 \<longrightarrow> contents w' v' ! i = c ! (i + 1)"
        using s(2) p c by (auto simp: nth_append min_def)
      moreover have "\<forall>i. i < p \<longrightarrow> contents w' v' ! i = c ! i"
        using s(2) p c by (auto simp: nth_append)
      ultimately show ?thesis using s by simp
    qed
    show ?thesis using 1 2 by blast
  qed
  show ?thesis
    unfolding Insert_def c(2) using ins insf ers by blast
qed

theorem Insert_Erase_contents_witness:
  "wf_world (one_block [Some 5, Some 6, None]) \<and> valid (one_block [Some 5, Some 6, None]) (vec 1 3 2) \<and>
   contents (one_block [Some 5, Some 6, None]) (vec 1 3 2) = [5, 6] \<and>
   Insert int_traits (1, 1) 9 (vec 1 3 2) (one_block [Some 5, Some 6, None])
     = (Done, (1, 1), vec 1 3 3, one_block [Some 5, Some 9, Some 6]) \<and>
   contents (one_block [Some 5, Some 9, Some 6]) (vec 1 3 3) = [5, 9, 6] \<and>
   Erase int_traits (1, 1) (vec 1 3 3) (one_block [Some 5, Some 9, Some 6])
     = (Done, (1, 1), vec 1 3 2, one_block [Some 5, Some 6, None]) \<and>
   contents (one_block [Some 5, Some 6, None]) (vec 1 3 2)
     = take 1 [5, 6] @ drop 1 [5, 6]"
proof -
  let ?w = "one_block [Some 5, Some 6, None]" and ?w' = "one_block [Some 5, Some 9, Some 6]"
  have wf: "wf_world ?w" by (simp add: run_defs)
  have v: "valid ?w (vec 1 3 2)" by code_simp
  have c: "contents ?w (vec 1 3 2) = [5, 6]" by code_simp
  have g: "GetAddress (vec 1 3 2) = 1" "GetAddress (vec 1 3 3) = 1" "(1::nat) \<le> size_m (vec 1 3 2)"
    by (simp_all add: GetAddress_def vec_def)
  have i: "Insert int_traits (1, 1) 9 (vec 1 3 2) ?w = (Done, (1, 1), vec 1 3 3, ?w')"
    by (simp add: run_defs)
  have e: "Erase int_traits (1, 1) (vec 1 3 3) ?w' = (Done, (1, 1), vec 1 3 2, ?w)"
    by (simp add: run_defs)
  from Insert_Erase_contents[OF wf v, of 1 int_traits 9 "(1, 1)" "vec 1 3 3" ?w' "(1, 1)" "vec 1 3 2" ?w]
    i e g
  have "contents ?w' (vec 1 3 3) = take 1 (contents ?w (vec 1 3 2)) @ 9 # drop 1 (contents ?w (vec 1 3 2))"
    by simp
  with wf v c i e show ?thesis by simp
qed

section \<open>Resize\<close>




section \<open>Releasing blocks\<close>

text \<open>
  Where a valid Vector gives up a block, it has destroyed the elements in it first: its
  destructor, \<open>Reserve\<close>, \<open>Resize\<close>, the growth of \<open>PushBack\<close> and \<open>Emplace\<close> and the
  copy assignment lose no live object (\<open>leaked\<close> is unchanged), whether they return or
  throw. The destructor of a \<open>RawMemory\<close> itself releases the region if it is not null,
  does nothing for the null buffer, touches no other block and looks at no element. The
  last conjunct is the move assignment, which releases the target's former block with all
  \<open>size\<close> elements of the target still alive in it.
\<close>

lemma release_after_destroy:
  fixes w :: "'a world"
  assumes wf: "wf_world w" and v: "valid w v" and nb: "n * sizeof_T w \<le> SIZE_MAX"
  shows "(buffer_m m \<noteq> 0 \<longrightarrow> heap (RawMemory_dtor m w) (buffer_m m) = None) \<and>
    (buffer_m m = 0 \<longrightarrow> RawMemory_dtor m w = w) \<and>
    (\<forall>a. a \<noteq> buffer_m m \<longrightarrow> heap (RawMemory_dtor m w) a = heap w a) \<and>
    fst (Vector_dtor v w) = Done \<and> leaked (snd (Vector_dtor v w)) = leaked w \<and>
    (GetAddress v \<noteq> 0 \<longrightarrow> heap (snd (Vector_dtor v w)) (GetAddress v) = None) \<and>
    leaked (snd (snd (Reserve tr n v w))) = leaked w \<and>
    leaked (snd (snd (Resize tr n v w))) = leaked w \<and>
    (size_m v = Capacity v \<longrightarrow>
       leaked (snd (snd (PushBack tr x v w))) = leaked w \<and>
       (p \<le> size_m v \<longrightarrow> leaked (snd (snd (snd (Emplace tr (GetAddress v, p) x v w)))) = leaked w)) \<and>
    (valid w rhs \<and> (GetAddress v \<noteq> GetAddress rhs \<or> GetAddress v = 0) \<longrightarrow>
       leaked (snd (snd (copy_assign_body v rhs w))) = leaked w) \<and>
    (case move_assign_body v rhs w of
       (v', rhs', w') \<Rightarrow>
         leaked w' = leaked w + (if GetAddress v = 0 then 0 else size_m v) \<and>
         (GetAddress v \<noteq> 0 \<longrightarrow> heap w' (GetAddress v) = None))"
proof -
  note wh = wf_world_heap[OF wf]
  have fit: "fits n w" using wf nb by (simp add: fits_def wf_world_def)
  from v obtain c where c: "heap w (GetAddress v) = Some (packed c (Capacity v))"
      "length c = size_m v" "size_m v \<le> Capacity v" "contents w v = c"
    by (rule validD)
  have raw: "(buffer_m m \<noteq> 0 \<longrightarrow> heap (RawMemory_dtor m w) (buffer_m m) = None) \<and>
    (buffer_m m = 0 \<longrightarrow> RawMemory_dtor m w = w) \<and>
    (\<forall>a. a \<noteq> buffer_m m \<longrightarrow> heap (RawMemory_dtor m w) a = heap w a)"
    by (auto simp: RawMemory_dtor_def Deallocate_def split: option.splits)
  from Vector_dtor_eq[OF wh v] obtain w1 where d: "Vector_dtor v w = (Done, w1)"
      "heap w1 = release (GetAddress v) (heap w)" "leaked w1 = leaked w"
    by blast
  have dtor: "fst (Vector_dtor v w) = Done \<and> leaked (snd (Vector_dtor v w)) = leaked w \<and>
    (GetAddress v \<noteq> 0 \<longrightarrow> heap (snd (Vector_dtor v w)) (GetAddress v) = None)"
    using d by (simp add: release_def)
  have res: "leaked (snd (snd (Reserve tr n v w))) = leaked w"
  proof (cases "Capacity v < n")
    case True
    from Reserve_grow[OF wh v True fit, of tr] show ?thesis by (auto split: if_splits)
  next
    case False
    then show ?thesis by (simp add: Reserve_def)
  qed
  have rsz: "leaked (snd (snd (Resize tr n v w))) = leaked w"
  proof -
    consider "n < size_m v" | "size_m v \<le> n" "n \<le> Capacity v" | "Capacity v < n" by linarith
    then show ?thesis
    proof cases
      case 1
      then show ?thesis using Resize_shrink[OF v 1, of tr] by simp
    next
      case 2
      then show ?thesis using Resize_room[OF v 2, of tr] by simp
    next
      case 3
      from Resize_realloc[OF wh v 3 fit, of tr] show ?thesis by (auto split: if_splits)
    qed
  qed
  have grw: "leaked (snd (snd (PushBack tr x v w))) = leaked w \<and>
       (p \<le> size_m v \<longrightarrow> leaked (snd (snd (snd (Emplace tr (GetAddress v, p) x v w)))) = leaked w)"
    if full: "size_m v = Capacity v"
  proof -
    have g: "leaked (snd (snd (grow tr k x v w))) = leaked w" if "k \<le> size_m v" for k
      using grow_all[OF wh v full that refl grow_fits[OF wf v full], of tr x] by (auto split: if_splits)
    have "leaked (snd (snd (PushBack tr x v w))) = leaked w"
      using g[of "size_m v"] EmplaceBackImpl_full[OF full, of tr x w] by (simp add: PushBack_def)
    moreover have "leaked (snd (snd (snd (Emplace tr (GetAddress v, p) x v w)))) = leaked w" if "p \<le> size_m v"
      using g[OF that] Emplace_full[OF full that, of tr x w] by (simp split: prod.splits)
    ultimately show ?thesis by simp
  qed
  have cpy: "leaked (snd (snd (copy_assign_body v rhs w))) = leaked w"
    if "valid w rhs" "GetAddress v \<noteq> GetAddress rhs \<or> GetAddress v = 0"
  proof -
    obtain r v1 w1 where e: "copy_assign_body v rhs w = (r, v1, w1)"
      by (cases "copy_assign_body v rhs w") auto
    from copy_assign_body_spec(4,5)[OF wf v that e] have "leaked w1 = leaked w"
      by (cases "Capacity v < size_m rhs") auto
    then show ?thesis using e by simp
  qed
  have live: "length (filter (\<lambda>x. x \<noteq> None) (packed c (Capacity v))) = size_m v"
    using c(2) by (simp add: packed_def comp_def)
  have mv: "(case move_assign_body v rhs w of
       (v', rhs', w') \<Rightarrow>
         leaked w' = leaked w + (if GetAddress v = 0 then 0 else size_m v) \<and>
         (GetAddress v \<noteq> 0 \<longrightarrow> heap w' (GetAddress v) = None))"
    using c(1) live
    by (simp add: move_assign_body_def RawMemory_move_assign_def Deallocate_def GetAddress_def)
  show ?thesis using raw dtor res rsz grw cpy mv by blast
qed

text \<open>
  Claim C9 does not hold of the move assignment. \<^verbatim>\<open>Vector::operator=(Vector&&)\<close> is
  \<^verbatim>\<open>data_ = std::move(rhs.data_)\<close> followed by the transfer of \<open>size_\<close>, and the move
  assignment of \<open>RawMemory\<close> starts with \<^verbatim>\<open>Deallocate(buffer_)\<close>: the target's block is
  released while the target's elements are alive, no \<^verbatim>\<open>destroy_n\<close> having run. Here the
  target holds \<open>[5, 6]\<close> and the source \<open>[8]\<close>; the assignment releases block 1 with both
  of its objects alive, whereas destroying the same target loses none. (No \<^verbatim>\<open>assert\<close>
  stands in \<^verbatim>\<open>~RawMemory\<close> or in \<^verbatim>\<open>Deallocate\<close> either: the operation has no outcome
  but returning.)
\<close>

theorem move_assign_releases_live_elements:
  "valid (two_blocks [Some 5, Some 6] [Some 8]) (vec 1 2 2) \<and>
   valid (two_blocks [Some 5, Some 6] [Some 8]) (vec 2 1 1) \<and>
   slot (two_blocks [Some 5, Some 6] [Some 8]) (1, 0) = Some 5 \<and>
   slot (two_blocks [Some 5, Some 6] [Some 8]) (1, 1) = Some 6 \<and>
   move_assign 1 2 (two_objects (vec 1 2 2) (vec 2 1 1), two_blocks [Some 5, Some 6] [Some 8])
     = (two_objects (vec 2 1 1) Vector_default,
        \<lparr>heap = (\<lambda>_. None)(0 \<mapsto> [], 2 \<mapsto> [Some 8]), allocs = 2, faults = None, leaked = 2,
           sizeof_T = 4\<rparr>) \<and>
   Vector_dtor (vec 1 2 2) (two_blocks [Some 5, Some 6] [Some 8])
     = (Done,
        \<lparr>heap = (\<lambda>_. None)(0 \<mapsto> [], 2 \<mapsto> [Some 8]), allocs = 2, faults = None, leaked = 0,
           sizeof_T = 4\<rparr>) \<and>
   RawMemory_dtor \<lparr>buffer_m = 1, capacity_m = 2\<rparr> (two_blocks [Some 5, Some 6] [Some 8])
     = \<lparr>heap = (\<lambda>_. None)(0 \<mapsto> [], 2 \<mapsto> [Some 8]), allocs = 2, faults = None, leaked = 2,
          sizeof_T = 4\<rparr>"
  by (simp add: run_defs fun_eq_iff)

section \<open>Moving and self-assignment\<close>



text \<open>
  Claim C10. Assigning a Vector to itself, by copy or by move, changes nothing: the store of
  objects and the world (every block, hence every element, and all counters) are returned as
  they were, and the copy assignment returns normally.
\<close>

theorem self_assignment_is_noop:
  "copy_assign this this m = (Done, m) \<and> move_assign this this m = m"
  by (simp add: copy_assign_def move_assign_def)

end
